theory Spec2Isabelle
  imports Complex_Main "HOL-Library.Word" "HOL-Library.Monad_Syntax"
begin

unbundle bit_operations_syntax

section \<open>Playback buffer: the \<open>PCMProcessor\<close> audio worklet\<close>

text \<open>
  The worklet processor keeps three fields: \<open>bufferQueue\<close> (the chunks posted to its port and
  not yet merged), \<open>buffer\<close> (the contiguous samples not yet played) and \<open>shouldStop\<close>.
  Samples are only copied and zero-filled here, so the sample type is any type with a zero.
\<close>

record 'a PCMProcessor =
  bufferQueue :: "'a list list"
  buffer :: "'a list"
  shouldStop :: bool

text \<open>The constructor: an empty queue, an empty buffer, not stopped.\<close>

definition constructor :: "'a PCMProcessor" where
  "constructor = \<lparr>bufferQueue = [], buffer = [], shouldStop = False\<rparr>"

text \<open>A message on the port is the string \<open>"STOP"\<close> or a chunk of samples.\<close>

datatype 'a message = STOP | Chunk "'a list"

fun onmessage :: "'a message \<Rightarrow> 'a PCMProcessor \<Rightarrow> 'a PCMProcessor" where
  "onmessage STOP st = st\<lparr>shouldStop := True\<rparr>"
| "onmessage (Chunk c) st = st\<lparr>bufferQueue := bufferQueue st @ [c]\<rparr>"

text \<open>
  The \<open>while\<close> loop of \<open>process\<close>: as long as the buffer is shorter than the block and the
  queue is not empty, shift the first chunk off the queue and append it to the buffer.
  It returns the buffer and the queue it leaves.
\<close>

fun fillBuffer :: "nat \<Rightarrow> 'a list \<Rightarrow> 'a list list \<Rightarrow> 'a list \<times> 'a list list" where
  "fillBuffer outputLength buf [] = (buf, [])"
| "fillBuffer outputLength buf (newBuffer # queue) =
     (if length buf < outputLength
      then fillBuffer outputLength (buf @ newBuffer) queue
      else (buf, newBuffer # queue))"

text \<open>
  \<open>process\<close> on an output of \<open>channels\<close> channels, each \<open>outputLength\<close> samples long. It
  returns the channels as written, the flag that keeps the processor alive, and the new
  state. Reading \<open>output[0].length\<close> of an output without channels throws a TypeError
  before anything is changed: \<open>None\<close>.
\<close>

definition process ::
  "nat \<Rightarrow> nat \<Rightarrow> 'a::zero PCMProcessor \<Rightarrow> ('a list list \<times> bool \<times> 'a PCMProcessor) option" where
  "process channels outputLength st =
     (if channels = 0 then None
      else
        let (buf, queue) = fillBuffer outputLength (buffer st) (bufferQueue st);
            (block, buf') =
              (if outputLength \<le> length buf
               then (take outputLength buf, drop outputLength buf)
               else if 0 < length buf
               then (buf @ replicate (outputLength - length buf) 0, [])
               else (replicate outputLength 0, buf));
            st' = st\<lparr>bufferQueue := queue, buffer := buf'\<rparr>
        in Some (replicate channels block,
                 \<not> (shouldStop st' \<and> length (bufferQueue st') = 0 \<and> length (buffer st') = 0),
                 st'))"

text \<open>Everything the processor still holds, in the order it was pushed.\<close>

definition pending :: "'a PCMProcessor \<Rightarrow> 'a list" where
  "pending st = buffer st @ concat (bufferQueue st)"

section \<open>JavaScript numbers\<close>

text \<open>
  A JavaScript number, and an element of a \<open>Float32Array\<close>, is a finite value, an infinity
  or NaN. A finite value is the rational it denotes; the sign of zero is not modelled. The
  functions \<open>num_mul\<close>, \<open>num_add\<close>, \<open>num_div\<close> and \<open>num_rem\<close> give the exact result of
  an operation; the operators of the language round it to binary64 (\<open>js_mul\<close>, \<open>js_add\<close>,
  \<open>js_sub\<close> and \<open>js_div\<close> in the section on binary floating point), and a store into a
  \<open>Float32Array\<close> rounds to binary32. The products and quotients of the sample conversions
  (a binary32 sample times \<open>0x8000\<close> or \<open>0x7FFF\<close>, a 16-bit integer over \<open>32768\<close>) are
  exact in binary64 and in binary32, and are written without the rounding.
\<close>

datatype number = Fin rat | PInf | NInf | NaN

text \<open>\<open>a < b\<close>: false as soon as one side is NaN.\<close>

fun num_less :: "number \<Rightarrow> number \<Rightarrow> bool" where
  "num_less NaN b = False"
| "num_less a NaN = False"
| "num_less (Fin a) (Fin b) = (a < b)"
| "num_less a NInf = False"
| "num_less NInf b = True"
| "num_less PInf b = False"
| "num_less a PInf = True"

text \<open>\<open>Math.min\<close> and \<open>Math.max\<close>: NaN as soon as one argument is NaN.\<close>

definition math_min :: "number \<Rightarrow> number \<Rightarrow> number" where
  "math_min a b = (if a = NaN \<or> b = NaN then NaN else if num_less b a then b else a)"

definition math_max :: "number \<Rightarrow> number \<Rightarrow> number" where
  "math_max a b = (if a = NaN \<or> b = NaN then NaN else if num_less a b then b else a)"

fun num_sign :: "number \<Rightarrow> int" where
  "num_sign (Fin a) = (if a < 0 then - 1 else if a = 0 then 0 else 1)"
| "num_sign PInf = 1"
| "num_sign NInf = -1"
| "num_sign NaN = 0"

text \<open>\<open>a * b\<close>: an infinity times zero is NaN, otherwise the signs multiply.\<close>

fun num_mul :: "number \<Rightarrow> number \<Rightarrow> number" where
  "num_mul NaN b = NaN"
| "num_mul a NaN = NaN"
| "num_mul (Fin a) (Fin b) = Fin (a * b)"
| "num_mul a b =
     (if num_sign a * num_sign b = 0 then NaN
      else if 0 < num_sign a * num_sign b then PInf else NInf)"

text \<open>\<open>a + b\<close>: opposite infinities add to NaN.\<close>

fun num_add :: "number \<Rightarrow> number \<Rightarrow> number" where
  "num_add NaN b = NaN"
| "num_add a NaN = NaN"
| "num_add (Fin a) (Fin b) = Fin (a + b)"
| "num_add PInf NInf = NaN"
| "num_add NInf PInf = NaN"
| "num_add PInf b = PInf"
| "num_add a PInf = PInf"
| "num_add NInf b = NInf"
| "num_add a NInf = NInf"

text \<open>Truncation towards zero, as the integer conversions of ECMAScript do.\<close>

definition js_trunc :: "rat \<Rightarrow> int" where
  "js_trunc x = (if x < 0 then \<lceil>x\<rceil> else \<lfloor>x\<rfloor>)"

text \<open>
  \<open>ToInt16\<close>, applied by a store into an \<open>Int16Array\<close>: NaN and the infinities become 0, a
  finite value is truncated and wraps modulo \<open>2^16\<close> into the signed range.
\<close>

fun toInt16 :: "number \<Rightarrow> int" where
  "toInt16 (Fin x) = (js_trunc x + 32768) mod 65536 - 32768"
| "toInt16 PInf = 0"
| "toInt16 NInf = 0"
| "toInt16 NaN = 0"

text \<open>\<open>Math.round\<close> on a finite value: the nearest integer, a tie going up.\<close>

definition math_round :: "rat \<Rightarrow> int" where
  "math_round x = \<lfloor>x + 1 / 2\<rfloor>"

text \<open>\<open>a % b\<close> on finite values with \<open>b\<close> not zero: the remainder has the sign of \<open>a\<close>.\<close>

definition js_mod :: "rat \<Rightarrow> rat \<Rightarrow> rat" where
  "js_mod a b = a - b * of_int (js_trunc (a / b))"

section \<open>Binary floating point\<close>

text \<open>
  The arithmetic of JavaScript is IEEE 754 binary64 with rounding to nearest, ties to even;
  a store into a \<open>Float32Array\<close> rounds to binary32 in the same way. \<open>expo x\<close> is the
  binary exponent of a positive rational: \<open>2 ^ expo x \<le> x < 2 ^ (expo x + 1)\<close>. It is
  found by halving a value that is at least 2, and by doubling a value below 1.
\<close>

function expo_up :: "rat \<Rightarrow> int" where
  "expo_up x = (if 2 \<le> x then expo_up (x / 2) + 1 else 0)"
  by pat_completeness auto
termination
proof (relation "measure (\<lambda>x. nat \<lfloor>x\<rfloor>)")
  fix x :: rat
  assume "2 \<le> x"
  then have "x / 2 \<le> x - 1" by simp
  then have "\<lfloor>x / 2\<rfloor> \<le> \<lfloor>x - 1\<rfloor>" by (rule floor_mono)
  moreover have "2 \<le> \<lfloor>x\<rfloor>" using \<open>2 \<le> x\<close> by (simp add: le_floor_iff)
  ultimately show "(x / 2, x) \<in> measure (\<lambda>x. nat \<lfloor>x\<rfloor>)" by simp
qed simp

declare expo_up.simps [simp del]

function expo_down :: "rat \<Rightarrow> int" where
  "expo_down x = (if 0 < x \<and> x < 1 then expo_down (x * 2) - 1 else 0)"
  by pat_completeness auto
termination
proof (relation "measure (\<lambda>x. nat \<lceil>1 / x\<rceil>)")
  fix x :: rat
  assume a: "0 < x \<and> x < 1"
  then have y: "1 < 1 / x" by simp
  have "\<lceil>1 / (x * 2)\<rceil> < \<lceil>1 / x\<rceil>"
  proof (rule ccontr)
    assume "\<not> \<lceil>1 / (x * 2)\<rceil> < \<lceil>1 / x\<rceil>"
    then have "\<lceil>1 / x\<rceil> \<le> \<lceil>1 / (x * 2)\<rceil>" by simp
    then have "of_int \<lceil>1 / x\<rceil> - 1 < 1 / (x * 2)"
      by (simp add: le_ceiling_iff)
    moreover have "1 / x \<le> of_int \<lceil>1 / x\<rceil>" by (rule le_of_int_ceiling)
    moreover have "1 / (x * 2) = (1 / x) / 2" by simp
    ultimately have "of_int \<lceil>1 / x\<rceil> < (2 :: rat)" by linarith
    then have "\<lceil>1 / x\<rceil> < 2" by linarith
    moreover have "1 < \<lceil>1 / x\<rceil>" using y a by (simp add: less_ceiling_iff)
    ultimately show False by simp
  qed
  moreover have "0 < \<lceil>1 / x\<rceil>" using y a by (simp add: less_ceiling_iff)
  ultimately show "(x * 2, x) \<in> measure (\<lambda>x. nat \<lceil>1 / x\<rceil>)" by simp
qed simp

declare expo_down.simps [simp del]

definition expo :: "rat \<Rightarrow> int" where
  "expo x = (if 1 \<le> x then expo_up x else expo_down x)"

text \<open>The nearest integer, a tie going to the even one.\<close>

definition round_even :: "rat \<Rightarrow> int" where
  "round_even y =
     (let n = \<lfloor>y\<rfloor>; d = y - of_int n
      in if d < 1 / 2 then n else if 1 / 2 < d then n + 1 else if even n then n else n + 1)"

text \<open>
  \<open>fl p emin x\<close> rounds \<open>x\<close> to the nearest multiple of \<open>2 ^ (e - p + 1)\<close>, where \<open>e\<close> is
  the exponent of \<open>x\<close>, or \<open>emin\<close> when \<open>x\<close> is smaller than every normal number: \<open>p\<close>
  significant bits, and the fixed grid of the subnormal numbers below \<open>2 ^ emin\<close>. A
  result of \<open>2 ^ 1024\<close> or more (\<open>2 ^ 128\<close> in binary32) is an infinity.
\<close>

definition fl :: "nat \<Rightarrow> int \<Rightarrow> rat \<Rightarrow> rat" where
  "fl p emin x =
     (if x = 0 then 0
      else let e = max (expo \<bar>x\<bar>) emin; q = 2 powi (e - int p + 1)
           in of_int (round_even (x / q)) * q)"

definition fl64 :: "rat \<Rightarrow> rat" where
  "fl64 x = fl 53 (- 1022) x"

definition fl32 :: "rat \<Rightarrow> rat" where
  "fl32 x = fl 24 (- 126) x"

definition rnd64 :: "number \<Rightarrow> number" where
  "rnd64 a =
     (case a of
        Fin x \<Rightarrow>
          (let y = fl64 x
           in if 2 ^ 1024 \<le> \<bar>y\<bar> then (if 0 < y then PInf else NInf) else Fin y)
      | _ \<Rightarrow> a)"

definition rnd32 :: "number \<Rightarrow> number" where
  "rnd32 a =
     (case a of
        Fin x \<Rightarrow>
          (let y = fl32 x
           in if 2 ^ 128 \<le> \<bar>y\<bar> then (if 0 < y then PInf else NInf) else Fin y)
      | _ \<Rightarrow> a)"

fun num_neg :: "number \<Rightarrow> number" where
  "num_neg (Fin a) = Fin (- a)"
| "num_neg PInf = NInf"
| "num_neg NInf = PInf"
| "num_neg NaN = NaN"

text \<open>
  \<open>a / b\<close>: zero over zero and an infinity over an infinity are NaN; a finite value that is
  not zero over zero is an infinity with the sign of the value (the zero taken as positive).
\<close>

fun num_div :: "number \<Rightarrow> number \<Rightarrow> number" where
  "num_div NaN b = NaN"
| "num_div a NaN = NaN"
| "num_div (Fin a) (Fin b) =
     (if b = 0 then (if a = 0 then NaN else if 0 < a then PInf else NInf) else Fin (a / b))"
| "num_div (Fin a) b = Fin 0"
| "num_div a (Fin b) = (if (0 \<le> b) = (a = PInf) then PInf else NInf)"
| "num_div a b = NaN"

text \<open>
  \<open>a % b\<close>: NaN when \<open>a\<close> is infinite or \<open>b\<close> is zero, \<open>a\<close> when \<open>b\<close> is infinite. The
  remainder of two binary64 values is a binary64 value, so nothing is rounded.
\<close>

fun num_rem :: "number \<Rightarrow> number \<Rightarrow> number" where
  "num_rem NaN b = NaN"
| "num_rem a NaN = NaN"
| "num_rem (Fin a) (Fin b) = (if b = 0 then NaN else Fin (js_mod a b))"
| "num_rem (Fin a) b = Fin a"
| "num_rem a b = NaN"

text \<open>The operators \<open>+\<close>, \<open>-\<close>, \<open>*\<close> and \<open>/\<close> of the language.\<close>

definition js_add :: "number \<Rightarrow> number \<Rightarrow> number" where
  "js_add a b = rnd64 (num_add a b)"

definition js_sub :: "number \<Rightarrow> number \<Rightarrow> number" where
  "js_sub a b = rnd64 (num_add a (num_neg b))"

definition js_mul :: "number \<Rightarrow> number \<Rightarrow> number" where
  "js_mul a b = rnd64 (num_mul a b)"

definition js_div :: "number \<Rightarrow> number \<Rightarrow> number" where
  "js_div a b = rnd64 (num_div a b)"

text \<open>\<open>Math.floor\<close> and \<open>Math.round\<close> on a number: NaN and the infinities are kept.\<close>

fun math_floor :: "number \<Rightarrow> number" where
  "math_floor (Fin x) = Fin (of_int \<lfloor>x\<rfloor>)"
| "math_floor a = a"

fun Math_round :: "number \<Rightarrow> number" where
  "Math_round (Fin x) = Fin (of_int (math_round x))"
| "Math_round a = a"

text \<open>
  \<open>ToIndex\<close>, applied to the length given to a typed array constructor: NaN becomes 0, a
  finite value is truncated, and a result that is negative or above \<open>2^53 - 1\<close> throws a
  RangeError, here \<open>None\<close>.
\<close>

fun toIndex :: "number \<Rightarrow> nat option" where
  "toIndex (Fin x) =
     (if js_trunc x < 0 \<or> 9007199254740991 < js_trunc x then None else Some (nat (js_trunc x)))"
| "toIndex NaN = Some 0"
| "toIndex a = None"

text \<open>
  \<open>ToUint32\<close>, applied by \<open>setUint32\<close> to its value: NaN and the infinities become 0, a
  finite value is truncated and reduced modulo \<open>2^32\<close>. Its low 16 bits are \<open>ToUint16\<close>.
\<close>

fun toUint32 :: "number \<Rightarrow> nat" where
  "toUint32 (Fin x) = nat (js_trunc x mod 4294967296)"
| "toUint32 a = 0"

section \<open>Typed arrays and the \<open>DataView\<close>\<close>

text \<open>
  A \<open>Uint8Array\<close>, and the bytes of an \<open>ArrayBuffer\<close>, are a list of 8-bit words. The
  \<open>DataView\<close> setters convert their value modulo the width of the field (the conversion
  \<open>of_nat\<close> into an 8-bit word keeps the low byte) and throw a RangeError, here \<open>None\<close>,
  when the field does not lie inside the view. All multi-byte accesses of the source pass
  \<open>true\<close> for little-endian. A typed array constructor throws when its length is not an
  index (\<open>toIndex\<close>); below that bound the engine's own limit on the size of an allocation
  is not modelled.
\<close>

type_synonym byte = "8 word"

definition setUint8 :: "byte list \<Rightarrow> nat \<Rightarrow> nat \<Rightarrow> byte list option" where
  "setUint8 view off v =
     (if off + 1 \<le> length view then Some (view[off := of_nat v]) else None)"

definition setUint16 :: "byte list \<Rightarrow> nat \<Rightarrow> nat \<Rightarrow> byte list option" where
  "setUint16 view off v =
     (if off + 2 \<le> length view
      then Some (view[off := of_nat v, off + 1 := of_nat (v div 256)])
      else None)"

definition setUint32 :: "byte list \<Rightarrow> nat \<Rightarrow> nat \<Rightarrow> byte list option" where
  "setUint32 view off v =
     (if off + 4 \<le> length view
      then Some (view[off := of_nat v, off + 1 := of_nat (v div 256),
                      off + 2 := of_nat (v div 65536), off + 3 := of_nat (v div 16777216)])
      else None)"

definition getUint16 :: "byte list \<Rightarrow> nat \<Rightarrow> nat option" where
  "getUint16 view off =
     (if off + 2 \<le> length view
      then Some (unat (view ! off) + 256 * unat (view ! (off + 1)))
      else None)"

definition getUint32 :: "byte list \<Rightarrow> nat \<Rightarrow> nat option" where
  "getUint32 view off =
     (if off + 4 \<le> length view
      then Some (unat (view ! off) + 256 * unat (view ! (off + 1))
                 + 65536 * unat (view ! (off + 2)) + 16777216 * unat (view ! (off + 3)))
      else None)"

definition getInt16 :: "byte list \<Rightarrow> nat \<Rightarrow> int option" where
  "getInt16 view off =
     (if off + 2 \<le> length view
      then let u = uint (view ! off) + 256 * uint (view ! (off + 1))
           in Some (if u < 32768 then u else u - 65536)
      else None)"

text \<open>\<open>writeString\<close>: one \<open>setUint8\<close> per character, with its character code.\<close>

fun writeString :: "byte list \<Rightarrow> nat \<Rightarrow> string \<Rightarrow> byte list option" where
  "writeString view off [] = Some view"
| "writeString view off (c # str) =
     do { view' \<leftarrow> setUint8 view off (of_char c); writeString view' (off + 1) str }"

text \<open>
  \<open>target.set(source, offset)\<close> on typed arrays: the source is copied to the offset, and a
  source that does not fit throws a RangeError.
\<close>

definition typedArraySet :: "'a list \<Rightarrow> 'a list \<Rightarrow> nat \<Rightarrow> 'a list option" where
  "typedArraySet target source offset =
     (if offset + length source \<le> length target
      then Some (take offset target @ source @ drop (offset + length source) target)
      else None)"

section \<open>The WAV encoder of PCM16 data: \<open>bufferToWav\<close>\<close>

text \<open>
  The sample rate, the channel count and the bit depth are non-negative whole numbers, each
  passed as the number it is (binary64 holds every whole number up to \<open>2^53\<close>; the
  statements about the encoder keep the parameters below it). \<open>sampleSize\<close>, \<open>expectedSamples\<close>, \<open>remainder\<close>,
  \<open>missingSamples\<close>, \<open>paddingSize\<close>, \<open>totalSize\<close> and the values of the ByteRate and
  BlockAlign fields are computed as the source does, every product, quotient, sum and
  difference rounded to binary64. With a sample rate or a bit depth of 0 the remainder is
  NaN: both typed arrays then get length 0, and copying a non-empty input into
  \<open>paddedData\<close> throws a RangeError. \<open>dataSize\<close> is the length of a typed array, a whole
  number below \<open>2^53\<close>.
\<close>

definition bufferToWav :: "byte list \<Rightarrow> nat \<Rightarrow> nat \<Rightarrow> nat \<Rightarrow> byte list option" where
  "bufferToWav chunks sampleRate numChannels bitsPerSample =
     (let combinedChunks =
            (if length chunks mod 2 \<noteq> 0 then take (length chunks - 1) chunks else chunks);
          sampleSize = js_div (Fin (of_nat bitsPerSample)) (Fin 8);
          expectedSamples = js_div (Fin (of_nat (length combinedChunks))) sampleSize;
          remainder = num_rem expectedSamples (Fin (of_nat sampleRate));
          missingSamples =
            num_rem (js_sub (Fin (of_nat sampleRate)) remainder) (Fin (of_nat sampleRate));
          paddingSize = js_mul (js_mul missingSamples (Fin (of_nat numChannels))) sampleSize
      in do {
        paddingLength \<leftarrow> toIndex paddingSize;
        paddedLength \<leftarrow> toIndex (js_add (Fin (of_nat (length combinedChunks))) paddingSize);
        paddedData \<leftarrow> typedArraySet (replicate paddedLength 0) combinedChunks 0;
        paddedData \<leftarrow>
          typedArraySet paddedData (replicate paddingLength 0) (length combinedChunks);
        let headerSize = 44;
        let dataSize = length paddedData;
        let totalSize = js_add (Fin (of_nat headerSize)) (Fin (of_nat dataSize));
        header \<leftarrow> writeString (replicate headerSize 0) 0 ''RIFF'';
        header \<leftarrow> setUint32 header 4 (toUint32 (js_sub totalSize (Fin 8)));
        header \<leftarrow> writeString header 8 ''WAVE'';
        header \<leftarrow> writeString header 12 ''fmt '';
        header \<leftarrow> setUint32 header 16 16;
        header \<leftarrow> setUint16 header 20 1;
        header \<leftarrow> setUint16 header 22 numChannels;
        header \<leftarrow> setUint32 header 24 sampleRate;
        header \<leftarrow> setUint32 header 28
          (toUint32 (js_mul (js_mul (Fin (of_nat sampleRate)) (Fin (of_nat numChannels)))
                            sampleSize));
        header \<leftarrow> setUint16 header 32 (toUint32 (js_mul (Fin (of_nat numChannels)) sampleSize));
        header \<leftarrow> setUint16 header 34 bitsPerSample;
        header \<leftarrow> writeString header 36 ''data'';
        header \<leftarrow> setUint32 header 40 dataSize;
        wavLength \<leftarrow> toIndex totalSize;
        wavData \<leftarrow> typedArraySet (replicate wavLength 0) header 0;
        typedArraySet wavData paddedData headerSize
      })"

section \<open>The WAV encoder of float channels: \<open>writeWav\<close>\<close>

text \<open>
  Lines 49 and 50 of the worker: the sample is clamped to \<open>[-1, 1]\<close>, scaled by \<open>0x8000\<close>
  when negative and by \<open>0x7FFF\<close> otherwise, and stored into an \<open>Int16Array\<close>.
\<close>

definition floatTo16 :: "number \<Rightarrow> int" where
  "floatTo16 x =
     (let s = math_max (Fin (- 1)) (math_min (Fin 1) x)
      in toInt16 (if num_less s (Fin 0) then num_mul s (Fin 32768) else num_mul s (Fin 32767)))"

text \<open>
  The two bytes of an \<open>Int16Array\<close> element as the \<open>Uint8Array\<close> over the same buffer
  shows them, on a little-endian host.
\<close>

definition int16Bytes :: "int \<Rightarrow> byte list" where
  "int16Bytes x = [of_int x, of_int (x div 256)]"

text \<open>The inner copy loop: \<open>view.setUint8(offset + j, channelData[j])\<close> for every byte.\<close>

fun writeBytes :: "byte list \<Rightarrow> nat \<Rightarrow> byte list \<Rightarrow> byte list option" where
  "writeBytes view off [] = Some view"
| "writeBytes view off (b # bs) =
     do { view' \<leftarrow> setUint8 view off (unat b); writeBytes view' (off + 1) bs }"

text \<open>
  The loop over the channels. \<open>getChannelData(i)\<close> of a channel that was not sent is
  \<open>undefined\<close>, and reading its length throws a TypeError: \<open>None\<close>.
\<close>

function writeChannels ::
  "number list list \<Rightarrow> nat \<Rightarrow> nat \<Rightarrow> nat \<Rightarrow> byte list \<Rightarrow> byte list option" where
  "writeChannels channelData numberOfChannels i offset view =
     (if i < numberOfChannels then
        (if i < length channelData then
           (let channel = channelData ! i;
                output = map floatTo16 channel;
                bytes = concat (map int16Bytes output)
            in case writeBytes view offset bytes of
                 None \<Rightarrow> None
               | Some view' \<Rightarrow>
                   writeChannels channelData numberOfChannels (i + 1) (offset + length bytes) view')
         else None)
      else Some view)"
  by pat_completeness auto
termination
  by (relation "measure (\<lambda>(channelData, numberOfChannels, i, offset, view). numberOfChannels - i)")
     auto

declare writeChannels.simps [simp del]

text \<open>
  \<open>writeWav\<close> on the fields of the audio buffer the worker rebuilds from its message:
  the channels, the sample rate, the number of channels and the length in frames.
\<close>

definition writeWav :: "number list list \<Rightarrow> nat \<Rightarrow> nat \<Rightarrow> nat \<Rightarrow> byte list option" where
  "writeWav channelData sampleRate numOfChan frames =
     (let len = frames * numOfChan * 2 + 44
      in do {
        view \<leftarrow> writeString (replicate len 0) 0 ''RIFF'';
        view \<leftarrow> setUint32 view 4 (len - 8);
        view \<leftarrow> writeString view 8 ''WAVE'';
        view \<leftarrow> writeString view 12 ''fmt '';
        view \<leftarrow> setUint32 view 16 16;
        view \<leftarrow> setUint16 view 20 1;
        view \<leftarrow> setUint16 view 22 numOfChan;
        view \<leftarrow> setUint32 view 24 sampleRate;
        view \<leftarrow> setUint32 view 28 (sampleRate * numOfChan * 2);
        view \<leftarrow> setUint16 view 32 (numOfChan * 2);
        view \<leftarrow> setUint16 view 34 16;
        view \<leftarrow> writeString view 36 ''data'';
        view \<leftarrow> setUint32 view 40 (len - 44);
        writeChannels channelData numOfChan 0 44 view
      })"

section \<open>The resampler: \<open>resampleFloat32\<close>\<close>

text \<open>
  A read of a typed array at an index that is not a whole number inside its bounds gives
  \<open>undefined\<close>, which the arithmetic of the interpolation turns into NaN.
\<close>

definition readAt :: "number list \<Rightarrow> number \<Rightarrow> number" where
  "readAt xs idx =
     (case idx of
        Fin k \<Rightarrow>
          (if k = of_int \<lfloor>k\<rfloor> \<and> 0 \<le> k \<and> k < of_nat (length xs) then xs ! nat \<lfloor>k\<rfloor> else NaN)
      | _ \<Rightarrow> NaN)"

text \<open>
  The numbers of the loop body for the output index \<open>i\<close>, each the binary64 value the source
  computes: \<open>i / ratio\<close>, its floor, and \<open>Math.min(index0 + 1, inputArray.length - 1)\<close>.
\<close>

definition srcIndex :: "number \<Rightarrow> nat \<Rightarrow> number" where
  "srcIndex ratio i = js_div (Fin (of_nat i)) ratio"

definition index0 :: "number \<Rightarrow> nat \<Rightarrow> number" where
  "index0 ratio i = math_floor (srcIndex ratio i)"

definition index1 :: "number list \<Rightarrow> number \<Rightarrow> nat \<Rightarrow> number" where
  "index1 inputArray ratio i =
     math_min (js_add (index0 ratio i) (Fin 1))
              (js_sub (Fin (of_nat (length inputArray))) (Fin 1))"

text \<open>
  The value stored at \<open>outputArray[i]\<close>: the weights, the two products and their sum are
  rounded to binary64, and the store into the \<open>Float32Array\<close> rounds the sum to binary32.
\<close>

definition interpolate :: "number list \<Rightarrow> number \<Rightarrow> nat \<Rightarrow> number" where
  "interpolate inputArray ratio i =
     (let t = js_sub (srcIndex ratio i) (index0 ratio i)
      in rnd32 (js_add (js_mul (js_sub (Fin 1) t) (readAt inputArray (index0 ratio i)))
                       (js_mul t (readAt inputArray (index1 inputArray ratio i)))))"

function resampleLoop ::
  "number list \<Rightarrow> number \<Rightarrow> nat \<Rightarrow> nat \<Rightarrow> number list \<Rightarrow> number list" where
  "resampleLoop inputArray ratio newLength i outputArray =
     (if i < newLength
      then resampleLoop inputArray ratio newLength (i + 1)
             (outputArray[i := interpolate inputArray ratio i])
      else outputArray)"
  by pat_completeness auto
termination
  by (relation "measure (\<lambda>(inputArray, ratio, newLength, i, outputArray). newLength - i)") auto

declare resampleLoop.simps [simp del]

text \<open>
  The rates are non-negative whole numbers (binary64 holds every whole number up to
  \<open>2^53\<close>; the statements about the resampler keep the rates below it). With equal
  rates the input itself is returned.
  Otherwise the ratio and the new length are the binary64 values of the source, and the
  output is allocated with the new length: an infinite length, as for a non-empty input
  with \<open>originalRate = 0\<close>, throws a RangeError, and NaN gives the empty array. Where the
  allocation succeeds the new length is NaN or the whole number that is the length of the
  output, so that the loop condition \<open>i < newLength\<close> is \<open>i\<close> below that length.
\<close>

definition resampleFloat32 :: "number list \<Rightarrow> nat \<Rightarrow> nat \<Rightarrow> number list option" where
  "resampleFloat32 inputArray originalRate targetRate =
     (if originalRate = targetRate then Some inputArray
      else
        let ratio = js_div (Fin (of_nat targetRate)) (Fin (of_nat originalRate));
            newLength = Math_round (js_mul (Fin (of_nat (length inputArray))) ratio)
        in case toIndex newLength of
             None \<Rightarrow> None
           | Some n \<Rightarrow> Some (resampleLoop inputArray ratio n 0 (replicate n (Fin 0))))"

section \<open>PCM16 to Float32: \<open>convertPCM16ToFloat32\<close>\<close>

text \<open>
  The loop over the samples: \<open>getInt16\<close> at byte offset \<open>i * 2\<close>, little-endian, divided
  by 32768 and stored at index \<open>i\<close>.
\<close>

function pcm16Loop :: "byte list \<Rightarrow> nat \<Rightarrow> nat \<Rightarrow> number list \<Rightarrow> number list option" where
  "pcm16Loop pcmData samples i float32Array =
     (if i < samples then
        (case getInt16 pcmData (i * 2) of
           None \<Rightarrow> None
         | Some int16 \<Rightarrow>
             pcm16Loop pcmData samples (i + 1) (float32Array[i := Fin (of_int int16 / 32768)]))
      else Some float32Array)"
  by pat_completeness auto
termination
  by (relation "measure (\<lambda>(pcmData, samples, i, float32Array). samples - i)") auto

declare pcm16Loop.simps [simp del]

text \<open>
  An odd length is reported on the console and an empty array is returned; otherwise every
  little-endian 16-bit sample is divided by 32768 and the result goes through the resampler.
\<close>

definition convertPCM16ToFloat32 :: "byte list \<Rightarrow> nat \<Rightarrow> nat \<Rightarrow> number list option" where
  "convertPCM16ToFloat32 pcmData originalSampleRate targetSampleRate =
     (if length pcmData mod 2 \<noteq> 0 then Some []
      else
        let samples = length pcmData div 2
        in do {
          float32Array \<leftarrow> pcm16Loop pcmData samples 0 (replicate samples (Fin 0));
          resampleFloat32 float32Array originalSampleRate targetSampleRate
        })"

section \<open>Auxiliary definitions for the statements\<close>

text \<open>
  The conversion as the specification words it, for comparison with \<open>floatTo16\<close>: clamp
  to \<open>[-1, 1]\<close>, scale by 32768 when negative and by 32767 otherwise, and round.
\<close>

definition specFloatTo16 :: "rat \<Rightarrow> int" where
  "specFloatTo16 v =
     (let c = max (- 1) (min 1 v) in math_round (if c < 0 then c * 32768 else c * 32767))"

text \<open>The clamped and scaled sample, before it is stored.\<close>

definition scaled :: "rat \<Rightarrow> rat" where
  "scaled v = (let c = max (- 1) (min 1 v) in if c < 0 then c * 32768 else c * 32767)"

text \<open>
  The little-endian signed 16-bit sample number \<open>k\<close> of a PCM16 byte sequence, as a
  whole number: what \<open>getInt16\<close> reads at offset \<open>2 * k\<close> when the sample lies inside.
\<close>

definition sample16 :: "byte list \<Rightarrow> nat \<Rightarrow> int" where
  "sample16 pcmData k =
     (let u = uint (pcmData ! (2 * k)) + 256 * uint (pcmData ! (2 * k + 1))
      in if u < 32768 then u else u - 65536)"

text \<open>The samples of a PCM16 byte sequence as floats: each divided by 32768.\<close>

definition pcm16Floats :: "byte list \<Rightarrow> number list" where
  "pcm16Floats pcmData =
     map (\<lambda>k. Fin (of_int (sample16 pcmData k) / 32768)) [0..<length pcmData div 2]"

text \<open>
  The thirteen header writes that \<open>bufferToWav\<close> and \<open>writeWav\<close> share, on a view and with
  the values of the numeric fields as parameters. It is used to state what the header
  holds; the encoders above spell the writes out as the source does.
\<close>

definition wavHeaderWrites ::
  "byte list \<Rightarrow> nat \<Rightarrow> nat \<Rightarrow> nat \<Rightarrow> nat \<Rightarrow> nat \<Rightarrow> nat \<Rightarrow> nat \<Rightarrow> byte list option" where
  "wavHeaderWrites view chunkSize channels rate byteRate blockAlign bits dataSize =
     do {
       view \<leftarrow> writeString view 0 ''RIFF'';
       view \<leftarrow> setUint32 view 4 chunkSize;
       view \<leftarrow> writeString view 8 ''WAVE'';
       view \<leftarrow> writeString view 12 ''fmt '';
       view \<leftarrow> setUint32 view 16 16;
       view \<leftarrow> setUint16 view 20 1;
       view \<leftarrow> setUint16 view 22 channels;
       view \<leftarrow> setUint32 view 24 rate;
       view \<leftarrow> setUint32 view 28 byteRate;
       view \<leftarrow> setUint16 view 32 blockAlign;
       view \<leftarrow> setUint16 view 34 bits;
       view \<leftarrow> writeString view 36 ''data'';
       setUint32 view 40 dataSize
     }"

text \<open>
  The number of zero bytes \<open>bufferToWav\<close> appends to 16-bit data of \<open>len\<close> bytes:
  \<open>missingSamples * numChannels * sampleSize\<close> with \<open>expectedSamples = len / 2\<close>, in whole
  numbers.
\<close>

definition paddingBytes :: "nat \<Rightarrow> nat \<Rightarrow> nat \<Rightarrow> nat" where
  "paddingBytes len sampleRate numChannels =
     ((sampleRate - (len div 2) mod sampleRate) mod sampleRate) * numChannels * 2"

text \<open>
  A whole number as a JavaScript number. It is used to follow the arithmetic of
  \<open>bufferToWav\<close> where every value is a whole number below \<open>2^53\<close>, which binary64 holds
  exactly.
\<close>

definition natNum :: "nat \<Rightarrow> number" where
  "natNum n = Fin (of_nat n)"

section \<open>Properties of the playback buffer\<close>

lemma fillBuffer_concat:
  "fillBuffer n buf q = (buf', q') \<Longrightarrow> buf' @ concat q' = buf @ concat q"
  by (induction q arbitrary: buf) (auto split: if_splits)

lemma fillBuffer_enough:
  "fillBuffer n buf q = (buf', q') \<Longrightarrow> n \<le> length buf' \<or> q' = []"
  by (induction q arbitrary: buf) (auto split: if_splits)

lemma process_block:
  assumes "0 < channels"
  shows "\<exists>flag st'. process channels n st =
           Some (replicate channels (take n (pending st) @ replicate (n - length (pending st)) 0), flag, st')
         \<and> pending st' = drop n (pending st)
         \<and> shouldStop st' = shouldStop st
         \<and> flag = (\<not> (shouldStop st' \<and> bufferQueue st' = [] \<and> buffer st' = []))"
proof -
  obtain buf q where f: "fillBuffer n (buffer st) (bufferQueue st) = (buf, q)"
    by (cases "fillBuffer n (buffer st) (bufferQueue st)")
  have c: "pending st = buf @ concat q"
    using fillBuffer_concat [OF f] by (simp add: pending_def)
  have e: "n \<le> length buf \<or> q = []"
    by (rule fillBuffer_enough [OF f])
  show ?thesis
  proof (cases "n \<le> length buf")
    case True
    have "process channels n st =
        Some (replicate channels (take n buf),
              \<not> (shouldStop st \<and> q = [] \<and> drop n buf = []),
              st\<lparr>bufferQueue := q, buffer := drop n buf\<rparr>)"
      using assms True by (simp add: process_def f)
    moreover have "take n (pending st) @ replicate (n - length (pending st)) 0 = take n buf"
      using True by (simp add: c)
    moreover have "pending (st\<lparr>bufferQueue := q, buffer := drop n buf\<rparr>) = drop n buf @ concat q"
      by (simp add: pending_def)
    moreover have "drop n (pending st) = drop n buf @ concat q"
      using True by (simp add: c)
    ultimately show ?thesis by simp
  next
    case False
    with e have q: "q = []" by simp
    have "process channels n st =
        Some (replicate channels (buf @ replicate (n - length buf) 0),
              \<not> shouldStop st,
              st\<lparr>bufferQueue := [], buffer := []\<rparr>)"
      using assms False q by (cases "buf = []") (simp_all add: process_def f)
    moreover have "take n (pending st) @ replicate (n - length (pending st)) 0
        = buf @ replicate (n - length buf) 0"
      using False by (simp add: c q)
    moreover have "pending (st\<lparr>bufferQueue := [], buffer := []\<rparr>) = []"
      by (simp add: pending_def)
    moreover have "drop n (pending st) = []"
      using False by (simp add: c q)
    ultimately show ?thesis by simp
  qed
qed

lemma pending_push:
  "pending (foldl (\<lambda>s c. onmessage (Chunk c) s) st chunks) = pending st @ concat chunks"
  by (induction chunks arbitrary: st) (simp_all add: pending_def)

text \<open>
  Claim C1. Whatever the processor holds (\<open>pending\<close>: the buffer followed by the queued
  chunks, in the order they were pushed), one call of \<open>process\<close> writes to every channel
  exactly \<open>n\<close> samples: the first \<open>n\<close> pending samples, or all of them followed by zeros
  when fewer than \<open>n\<close> are pending; the samples written leave the processor and the rest
  stay in order. After any sequence of pushes into a new processor the pending samples are
  the concatenation of the chunks. After one push of a chunk into a new processor the block
  is the chunk's first \<open>n\<close> samples when \<open>n\<close> is at most its length, and the chunk followed
  by zeros otherwise (50 samples pushed and 80 pulled: the 50 samples and 30 zeros).
\<close>

theorem pull_returns_exactly_n:
  assumes "0 < channels"
  shows "(\<exists>flag st'. process channels n st =
            Some (replicate channels (take n (pending st) @ replicate (n - length (pending st)) 0),
                  flag, st')
            \<and> pending st' = drop n (pending st))
       \<and> length (take n (pending st) @ replicate (n - length (pending st)) 0) = n
       \<and> pending (foldl (\<lambda>s c. onmessage (Chunk c) s) constructor chunks) = concat chunks
       \<and> (\<exists>flag st'. process channels n (onmessage (Chunk chunk) constructor) =
            Some (replicate channels (take n chunk @ replicate (n - length chunk) 0), flag, st'))
       \<and> (n \<le> length chunk \<longrightarrow>
            (\<exists>flag st'. process channels n (onmessage (Chunk chunk) constructor) =
               Some (replicate channels (take n chunk), flag, st')))"
proof -
  have p: "pending (onmessage (Chunk chunk) constructor) = chunk"
    by (simp add: pending_def constructor_def)
  have a: "\<exists>flag st'. process channels n st =
            Some (replicate channels (take n (pending st) @ replicate (n - length (pending st)) 0),
                  flag, st')
            \<and> pending st' = drop n (pending st)"
    using process_block [OF assms, of n st] by blast
  have b: "length (take n (pending st) @ replicate (n - length (pending st)) 0) = n"
    by simp
  have c: "pending (foldl (\<lambda>s c. onmessage (Chunk c) s) constructor chunks) = concat chunks"
    unfolding pending_push by (simp add: pending_def constructor_def)
  have d: "\<exists>flag st'. process channels n (onmessage (Chunk chunk) constructor) =
            Some (replicate channels (take n chunk @ replicate (n - length chunk) 0), flag, st')"
    using process_block [OF assms, of n "onmessage (Chunk chunk) constructor"]
    unfolding p by blast
  have e: "n \<le> length chunk \<longrightarrow>
            (\<exists>flag st'. process channels n (onmessage (Chunk chunk) constructor) =
               Some (replicate channels (take n chunk), flag, st'))"
    using d by auto
  from a b c d e show ?thesis by blast
qed

theorem pull_returns_exactly_n_witness:
  "0 < (1::nat) \<and> (80::nat) \<le> 80 \<and>
   process 1 80 (onmessage (Chunk (map int [1..<51])) constructor) =
     Some ([map int [1..<51] @ replicate 30 0], True,
           \<lparr>bufferQueue = [], buffer = [], shouldStop = False\<rparr>) \<and>
   process 1 80 (onmessage (Chunk (map int [0..<80])) constructor) =
     Some ([take 80 (map int [0..<80])], True,
           \<lparr>bufferQueue = [], buffer = [], shouldStop = False\<rparr>)"
  using pull_returns_exactly_n [of 1 80 "onmessage (Chunk (map int [1..<51])) constructor" "[]" "map int [0..<80]"]
  by (simp add: process_def constructor_def)

text \<open>
  Claim C7. \<open>process\<close> returns \<open>false\<close> exactly when \<open>shouldStop\<close> is set (the STOP message
  was received) and, after the block has been taken, both the queue and the buffer are
  empty. Before STOP it always returns \<open>true\<close>, and so it does while any sample remains
  pending after the call. When it returns \<open>false\<close>, the block it wrote holds everything
  that was still pending, so nothing buffered is lost.
\<close>

theorem terminal_marker_after_drain:
  assumes "0 < channels"
  shows "\<exists>blocks flag st'. process channels n st = Some (blocks, flag, st')
       \<and> shouldStop st' = shouldStop st
       \<and> (flag = False \<longleftrightarrow> shouldStop st \<and> bufferQueue st' = [] \<and> buffer st' = [])
       \<and> (\<not> shouldStop st \<longrightarrow> flag)
       \<and> (pending st' \<noteq> [] \<longrightarrow> flag)
       \<and> (\<not> flag \<longrightarrow> length (pending st) \<le> n
             \<and> blocks = replicate channels (pending st @ replicate (n - length (pending st)) 0))"
proof -
  obtain flag st' where
    p: "process channels n st =
           Some (replicate channels (take n (pending st) @ replicate (n - length (pending st)) 0), flag, st')"
    and d: "pending st' = drop n (pending st)"
    and s: "shouldStop st' = shouldStop st"
    and f: "flag = (\<not> (shouldStop st' \<and> bufferQueue st' = [] \<and> buffer st' = []))"
    using process_block [OF assms, of n st] by blast
  have "\<not> flag \<Longrightarrow> pending st' = []"
    using f by (simp add: pending_def)
  with d have "\<not> flag \<Longrightarrow> length (pending st) \<le> n" by simp
  moreover have "pending st' \<noteq> [] \<Longrightarrow> flag"
    using f by (auto simp: pending_def)
  ultimately show ?thesis using p s f by auto
qed

theorem terminal_marker_after_drain_witness:
  "0 < (2::nat) \<and>
   process 2 3 (onmessage STOP (onmessage (Chunk [1, 2, 3, 4 :: int]) constructor)) =
     Some ([[1, 2, 3], [1, 2, 3]], True, \<lparr>bufferQueue = [], buffer = [4], shouldStop = True\<rparr>) \<and>
   process 2 3 \<lparr>bufferQueue = [], buffer = [4 :: int], shouldStop = True\<rparr> =
     Some ([[4, 0, 0], [4, 0, 0]], False, \<lparr>bufferQueue = [], buffer = [], shouldStop = True\<rparr>) \<and>
   process 2 3 (onmessage (Chunk [1, 2, 3 :: int]) constructor) =
     Some ([[1, 2, 3], [1, 2, 3]], True, \<lparr>bufferQueue = [], buffer = [], shouldStop = False\<rparr>)"
  using terminal_marker_after_drain [of 2 3 "\<lparr>bufferQueue = [], buffer = [4 :: int], shouldStop = True\<rparr>"]
  by (simp add: process_def constructor_def numeral_2_eq_2 numeral_3_eq_3)

section \<open>Properties of the sample conversion\<close>

lemma scaled_bounds: "- 32768 \<le> scaled v \<and> scaled v \<le> 32767"
  by (auto simp: scaled_def Let_def max_def min_def)

lemma js_trunc_bounds:
  assumes "of_int a \<le> x" "x \<le> of_int b" "a \<le> 0" "0 \<le> b"
  shows "a \<le> js_trunc x \<and> js_trunc x \<le> b"
proof (cases "x < 0")
  case True
  have "a \<le> \<lceil>x\<rceil>" using assms(1) by (simp add: le_ceiling_iff)
  moreover have "\<lceil>x\<rceil> \<le> 0" using True by (simp add: ceiling_le_iff)
  moreover have "js_trunc x = \<lceil>x\<rceil>" using True by (simp add: js_trunc_def)
  ultimately show ?thesis using assms(4) by linarith
next
  case False
  have "\<lfloor>x\<rfloor> \<le> b" using assms(2) by (simp add: floor_le_iff)
  moreover have "0 \<le> \<lfloor>x\<rfloor>" using False by simp
  moreover have "js_trunc x = \<lfloor>x\<rfloor>" using False by (simp add: js_trunc_def)
  ultimately show ?thesis using assms(3) by linarith
qed

lemma toInt16_in_range:
  "- 32768 \<le> k \<Longrightarrow> k \<le> 32767 \<Longrightarrow> (k + 32768) mod 65536 - 32768 = (k::int)"
  by simp

lemma floatTo16_Fin: "floatTo16 (Fin v) = js_trunc (scaled v)"
proof -
  have s: "math_max (Fin (- 1)) (math_min (Fin 1) (Fin v)) = Fin (max (- 1) (min 1 v))"
    by (auto simp: math_max_def math_min_def max_def min_def)
  have b: "- 32768 \<le> js_trunc (scaled v) \<and> js_trunc (scaled v) \<le> 32767"
    using js_trunc_bounds [of "- 32768" "scaled v" 32767] scaled_bounds [of v] by simp
  have "floatTo16 (Fin v) = toInt16 (Fin (scaled v))"
    by (simp add: floatTo16_def s scaled_def Let_def)
  also have "\<dots> = js_trunc (scaled v)"
    using b by simp
  finally show ?thesis .
qed

lemma floatTo16_special:
  "floatTo16 NaN = 0" "floatTo16 PInf = 32767" "floatTo16 NInf = - 32768"
  by (simp_all add: floatTo16_def math_max_def math_min_def js_trunc_def)

lemma js_trunc_round: "\<bar>js_trunc x - math_round x\<bar> \<le> 1"
  unfolding js_trunc_def math_round_def by (auto; linarith)

text \<open>
  Claim C3, as amended. For every finite sample \<open>v\<close> the conversion clamps \<open>v\<close> to
  \<open>[-1, 1]\<close>, scales it by 32768 when negative and by 32767 otherwise, and truncates the
  product towards zero: the store into the \<open>Int16Array\<close> does not round. The result is
  within 1 of the rounded product, NaN is stored as 0, and for every sample (finite,
  infinite or NaN) the result lies in \<open>[-32768, 32767]\<close>.
\<close>

theorem floatTo16_truncates:
  "floatTo16 (Fin v) =
     js_trunc (let c = max (- 1) (min 1 v) in if c < 0 then c * 32768 else c * 32767)
   \<and> \<bar>floatTo16 (Fin v) - specFloatTo16 v\<bar> \<le> 1
   \<and> floatTo16 NaN = 0
   \<and> - 32768 \<le> floatTo16 x \<and> floatTo16 x \<le> 32767"
proof -
  have r: "- 32768 \<le> floatTo16 x \<and> floatTo16 x \<le> 32767"
  proof (cases x)
    case (Fin w)
    then show ?thesis
      using js_trunc_bounds [of "- 32768" "scaled w" 32767] scaled_bounds [of w]
      by (simp add: floatTo16_Fin)
  qed (simp_all add: floatTo16_special)
  have "specFloatTo16 v = math_round (scaled v)"
    by (simp add: specFloatTo16_def scaled_def Let_def)
  then have "\<bar>floatTo16 (Fin v) - specFloatTo16 v\<bar> \<le> 1"
    using js_trunc_round [of "scaled v"] by (simp add: floatTo16_Fin)
  then show ?thesis using r
    by (simp add: floatTo16_Fin floatTo16_special scaled_def)
qed

text \<open>
  The claim as written fails at the sample \<open>0.25\<close>: the product is \<open>8191.75\<close>, which rounds
  to 8192 and is stored as 8191.
\<close>

theorem floatTo16_rounds_counterexample:
  "floatTo16 (Fin (1 / 4)) = 8191 \<and> specFloatTo16 (1 / 4) = 8192"
  by code_simp

section \<open>Properties of the PCM16 to Float32 converter\<close>

lemma getInt16_sample16:
  "2 * k + 2 \<le> length pcmData \<Longrightarrow> getInt16 pcmData (k * 2) = Some (sample16 pcmData k)"
  by (simp add: getInt16_def sample16_def mult.commute Let_def)

lemma sample16_range: "- 32768 \<le> sample16 pcmData k \<and> sample16 pcmData k \<le> 32767"
proof -
  define a where "a = uint (pcmData ! (2 * k))"
  define b where "b = uint (pcmData ! (2 * k + 1))"
  have "0 \<le> a" "a < 256" "0 \<le> b" "b < 256"
    using uint_lt2p [of "pcmData ! (2 * k)"] uint_lt2p [of "pcmData ! (2 * k + 1)"]
    by (simp_all add: a_def b_def)
  then have "- 32768 \<le> (if a + 256 * b < 32768 then a + 256 * b else a + 256 * b - 65536)
      \<and> (if a + 256 * b < 32768 then a + 256 * b else a + 256 * b - 65536) \<le> 32767"
    by auto
  then show ?thesis
    unfolding sample16_def Let_def a_def b_def .
qed

lemma pcm16Loop_eq:
  "i \<le> samples \<Longrightarrow> 2 * samples \<le> length pcmData \<Longrightarrow> length arr = samples \<Longrightarrow>
   pcm16Loop pcmData samples i arr =
     Some (take i arr @ map (\<lambda>k. Fin (of_int (sample16 pcmData k) / 32768)) [i..<samples])"
proof (induction pcmData samples i arr rule: pcm16Loop.induct)
  case (1 pcmData samples i float32Array)
  show ?case
  proof (cases "i < samples")
    case True
    then have g: "getInt16 pcmData (i * 2) = Some (sample16 pcmData i)"
      using "1.prems" by (intro getInt16_sample16) simp
    have "pcm16Loop pcmData samples i float32Array =
        pcm16Loop pcmData samples (i + 1)
          (float32Array[i := Fin (of_int (sample16 pcmData i) / 32768)])"
      using True g by (subst pcm16Loop.simps) simp
    also have "\<dots> = Some (take (i + 1) (float32Array[i := Fin (of_int (sample16 pcmData i) / 32768)])
           @ map (\<lambda>k. Fin (of_int (sample16 pcmData k) / 32768)) [i + 1..<samples])"
      using True g "1.prems" by (intro "1.IH") simp_all
    also have "take (i + 1) (float32Array[i := Fin (of_int (sample16 pcmData i) / 32768)])
        = take i float32Array @ [Fin (of_int (sample16 pcmData i) / 32768)]"
      using True "1.prems" by (simp add: take_Suc_conv_app_nth)
    finally show ?thesis using True by (simp add: upt_conv_Cons)
  next
    case False
    then have "i = samples" using "1.prems" by simp
    then show ?thesis using "1.prems" by (subst pcm16Loop.simps) simp
  qed
qed

lemma convert_even:
  assumes "length pcmData mod 2 = 0"
  shows "convertPCM16ToFloat32 pcmData originalRate targetRate =
           resampleFloat32 (pcm16Floats pcmData) originalRate targetRate"
proof -
  have "pcm16Loop pcmData (length pcmData div 2) 0 (replicate (length pcmData div 2) (Fin 0))
      = Some (pcm16Floats pcmData)"
    using assms by (subst pcm16Loop_eq) (simp_all add: pcm16Floats_def)
  then show ?thesis using assms by (simp add: convertPCM16ToFloat32_def)
qed

text \<open>
  Claim C8. For a byte sequence of odd length \<open>convertPCM16ToFloat32\<close> returns the empty
  array and throws nothing. For an even length the early return is not taken: the result
  is what the resampler makes of the decoded samples, and with equal rates it is the
  decoded samples themselves, one for every two bytes.
\<close>

theorem odd_length_gives_empty_result:
  "(length pcmData mod 2 \<noteq> 0 \<longrightarrow>
      convertPCM16ToFloat32 pcmData originalRate targetRate = Some [])
   \<and> (length pcmData mod 2 = 0 \<longrightarrow>
      convertPCM16ToFloat32 pcmData originalRate targetRate =
        resampleFloat32 (pcm16Floats pcmData) originalRate targetRate
      \<and> convertPCM16ToFloat32 pcmData rate rate = Some (pcm16Floats pcmData)
      \<and> length (pcm16Floats pcmData) = length pcmData div 2)"
  by (simp add: convert_even) (simp add: convertPCM16ToFloat32_def resampleFloat32_def pcm16Floats_def)

theorem odd_length_gives_empty_result_witness:
  "length [0, 128, 255 :: byte] mod 2 \<noteq> 0
   \<and> convertPCM16ToFloat32 [0, 128, 255] 24000 44100 = Some []
   \<and> length [0, 128, 255, 127 :: byte] mod 2 = 0
   \<and> convertPCM16ToFloat32 [0, 128, 255, 127] 24000 24000 = Some [Fin (- 1), Fin (32767 / 32768)]"
  using odd_length_gives_empty_result [of "[0, 128, 255]" 24000 44100 24000]
        odd_length_gives_empty_result [of "[0, 128, 255, 127]" 24000 24000 24000]
  by (simp add: pcm16Floats_def sample16_def upt_rec resampleFloat32_def)

section \<open>Properties of the float encoder and the round trip\<close>

lemma setUint8_byte: "off < length view \<Longrightarrow> setUint8 view off (unat b) = Some (view[off := b])"
  by (simp add: setUint8_def)

lemma writeBytes_eq:
  "off + length bs \<le> length view \<Longrightarrow>
   writeBytes view off bs = Some (take off view @ bs @ drop (off + length bs) view)"
proof (induction bs arbitrary: view off)
  case Nil
  then show ?case by simp
next
  case (Cons b bs)
  then have lt: "off < length view" by simp
  have "writeBytes view off (b # bs) = writeBytes (view[off := b]) (off + 1) bs"
    using lt by (simp add: setUint8_byte)
  also have "\<dots> = Some (take (off + 1) (view[off := b]) @ bs
                        @ drop (off + 1 + length bs) (view[off := b]))"
    using Cons.prems by (intro Cons.IH) simp
  also have "take (off + 1) (view[off := b]) = take off view @ [b]"
    using lt by (simp add: take_Suc_conv_app_nth)
  also have "drop (off + 1 + length bs) (view[off := b]) = drop (off + length (b # bs)) view"
    by simp
  finally show ?case by simp
qed

lemma length_int16Bytes: "length (concat (map int16Bytes xs)) = 2 * length xs"
  by (induction xs) (simp_all add: int16Bytes_def)

lemma nth_int16Bytes:
  "k < length xs \<Longrightarrow>
   concat (map int16Bytes xs) ! (2 * k) = of_int (xs ! k)
   \<and> concat (map int16Bytes xs) ! (2 * k + 1) = of_int (xs ! k div 256)"
proof (induction xs arbitrary: k)
  case Nil
  then show ?case by simp
next
  case (Cons x xs)
  show ?case
  proof (cases k)
    case 0
    then show ?thesis by (simp add: int16Bytes_def)
  next
    case (Suc j)
    then have "j < length xs" using Cons.prems by simp
    from Cons.IH [OF this] show ?thesis using Suc by (simp add: int16Bytes_def)
  qed
qed

lemma uint_byte_of_int: "uint (of_int x :: byte) = x mod 256"
  by (simp add: uint_word_of_int)
lemma mod_256_256: "x mod 256 + 256 * ((x div 256) mod 256) = (x::int) mod 65536"
  using zmod_zmult2_eq [of 256 x 256] by simp
lemma mod_65536_int16: "- 32768 \<le> x \<Longrightarrow> x \<le> 32767 \<Longrightarrow> (x::int) mod 65536 = (if 0 \<le> x then x else x + 65536)"
proof (cases "0 \<le> x")
  case True
  assume "x \<le> 32767"
  with True show ?thesis by simp
next
  case False
  assume "- 32768 \<le> x"
  with False have "(x + 65536) mod 65536 = x + 65536"
    by (intro mod_pos_pos_trivial) simp_all
  then show ?thesis using False by simp
qed

lemma int16_bytes_value:
  assumes "- 32768 \<le> x" "x \<le> 32767"
  shows "(let u = uint (of_int x :: byte) + 256 * uint (of_int (x div 256) :: byte)
          in if u < 32768 then u else u - 65536) = x"
proof -
  have "uint (of_int x :: byte) + 256 * uint (of_int (x div 256) :: byte) = x mod 65536"
    by (simp only: uint_byte_of_int mod_256_256)
  also have "\<dots> = (if 0 \<le> x then x else x + 65536)"
    using assms by (rule mod_65536_int16)
  finally show ?thesis using assms by (simp add: Let_def)
qed

lemma writeWav_channels:
  "\<exists>view. writeWav channelData sampleRate numOfChan frames =
             writeChannels channelData numOfChan 0 44 view
         \<and> length view = frames * numOfChan * 2 + 44"
  apply (simp add: writeWav_def Let_def setUint32_def setUint16_def setUint8_def)
  apply (rule exI)
  apply (rule conjI)
   apply (rule refl)
  apply simp
  done

lemma writeChannels_single:
  assumes "length view = 44 + 2 * length channel"
  shows "writeChannels [channel] 1 0 44 view =
           Some (take 44 view @ concat (map int16Bytes (map floatTo16 channel)))"
proof -
  let ?bytes = "concat (map int16Bytes (map floatTo16 channel))"
  have len: "length ?bytes = 2 * length channel"
    using length_int16Bytes [of "map floatTo16 channel"] by simp
  have w: "writeBytes view 44 ?bytes = Some (take 44 view @ ?bytes)"
    using assms len by (subst writeBytes_eq) (simp_all del: map_map)
  have "writeChannels [channel] 1 0 44 view =
          writeChannels [channel] 1 1 (44 + length ?bytes) (take 44 view @ ?bytes)"
    by (subst writeChannels.simps) (simp add: w Let_def del: map_map)
  also have "\<dots> = Some (take 44 view @ ?bytes)"
    by (subst writeChannels.simps) simp
  finally show ?thesis .
qed

lemma writeWav_single:
  "\<exists>header. length header = 44 \<and>
     writeWav [channel] sampleRate 1 (length channel) =
       Some (header @ concat (map int16Bytes (map floatTo16 channel)))"
proof -
  obtain view where v: "writeWav [channel] sampleRate 1 (length channel) =
      writeChannels [channel] 1 0 44 view"
    and l: "length view = length channel * 1 * 2 + 44"
    using writeWav_channels [of "[channel]" sampleRate 1 "length channel"] by blast
  have "writeChannels [channel] 1 0 44 view =
      Some (take 44 view @ concat (map int16Bytes (map floatTo16 channel)))"
    using l by (intro writeChannels_single) simp
  moreover have "length (take 44 view) = 44" using l by simp
  ultimately show ?thesis using v by metis
qed

lemma floatTo16_pcm16:
  assumes "- 32768 \<le> x" "x \<le> 32767"
  shows "floatTo16 (Fin (of_int x / 32768)) = (if x \<le> 0 then x else x - 1)"
proof -
  let ?v = "of_int x / 32768 :: rat"
  have lo: "- 1 \<le> ?v" using assms(1) by simp
  have hi: "?v < 1" using assms(2) by simp
  show ?thesis
  proof (cases "x < 0")
    case True
    then have "?v < 0" by simp
    then have "scaled ?v = of_int x"
      using lo hi by (simp add: scaled_def max_def min_def)
    then show ?thesis using True by (simp add: floatTo16_Fin js_trunc_def)
  next
    case False
    then have nn: "0 \<le> ?v" by simp
    then have s: "scaled ?v = of_int x - ?v"
      using hi by (simp add: scaled_def max_def min_def field_simps)
    show ?thesis
    proof (cases "x = 0")
      case True
      then show ?thesis by (simp add: floatTo16_Fin scaled_def js_trunc_def)
    next
      case nz: False
      with False have pos: "0 < ?v" by simp
      have "\<lfloor>of_int x - ?v\<rfloor> = x - 1"
        using pos hi by (intro floor_unique) simp_all
      moreover have "\<not> of_int x - ?v < 0"
        using False hi by (simp add: field_simps)
      ultimately show ?thesis using nz False by (simp add: floatTo16_Fin s js_trunc_def)
    qed
  qed
qed

lemma floatTo16_range: "- 32768 \<le> floatTo16 x \<and> floatTo16 x \<le> 32767"
proof (cases x)
  case (Fin w)
  then show ?thesis
    using js_trunc_bounds [of "- 32768" "scaled w" 32767] scaled_bounds [of w]
    by (simp add: floatTo16_Fin)
qed (simp_all add: floatTo16_special)

lemma getInt16_int16Bytes:
  assumes "k < length xs" "- 32768 \<le> xs ! k" "xs ! k \<le> 32767"
  shows "getInt16 (concat (map int16Bytes xs)) (2 * k) = Some (xs ! k)"
proof -
  have "2 * k + 2 \<le> length (concat (map int16Bytes xs))"
    using assms(1) by (simp add: length_int16Bytes)
  then show ?thesis
    using nth_int16Bytes [OF assms(1)] int16_bytes_value [OF assms(2,3)]
    by (simp add: getInt16_def Let_def)
qed

text \<open>
  Claim C5. For every PCM16 byte sequence of even length, converting it to floats with
  equal rates (each little-endian signed 16-bit sample divided by 32768, no resampling)
  and encoding the floats as one channel with \<open>writeWav\<close> succeeds, and the data after the
  44-byte header has the length of the input and holds, sample by sample, a value within 1
  of the input's: the same value for a sample that is zero or negative, one less for a
  positive sample.
\<close>

theorem pcm16_roundtrip_within_one:
  assumes "length pcmData mod 2 = 0"
  shows "\<exists>floats wav.
           convertPCM16ToFloat32 pcmData rate rate = Some floats
         \<and> writeWav [floats] rate 1 (length floats) = Some wav
         \<and> length wav = 44 + length pcmData
         \<and> (\<forall>k < length pcmData div 2. \<exists>x y.
               getInt16 pcmData (2 * k) = Some x
             \<and> getInt16 (drop 44 wav) (2 * k) = Some y
             \<and> \<bar>y - x\<bar> \<le> 1
             \<and> y = (if x \<le> 0 then x else x - 1))"
proof -
  let ?floats = "pcm16Floats pcmData"
  let ?out = "map floatTo16 ?floats"
  have n: "length ?floats = length pcmData div 2"
    by (simp add: pcm16Floats_def)
  have c: "convertPCM16ToFloat32 pcmData rate rate = Some ?floats"
    using assms by (simp add: convert_even resampleFloat32_def)
  obtain header where h: "length header = 44"
    and w: "writeWav [?floats] rate 1 (length ?floats) = Some (header @ concat (map int16Bytes ?out))"
    using writeWav_single [of ?floats rate] by blast
  have l: "length (header @ concat (map int16Bytes ?out)) = 44 + length pcmData"
    using assms h n length_int16Bytes [of ?out] by (simp del: map_map) presburger
  have s: "\<exists>x y. getInt16 pcmData (2 * k) = Some x
             \<and> getInt16 (drop 44 (header @ concat (map int16Bytes ?out))) (2 * k) = Some y
             \<and> \<bar>y - x\<bar> \<le> 1
             \<and> y = (if x \<le> 0 then x else x - 1)"
    if k: "k < length pcmData div 2" for k
  proof -
    let ?x = "sample16 pcmData k"
    have r: "- 32768 \<le> ?x" "?x \<le> 32767"
      using sample16_range [of pcmData k] by simp_all
    have "2 * k + 2 \<le> length pcmData" using k by simp
    then have gx: "getInt16 pcmData (2 * k) = Some ?x"
      using getInt16_sample16 [of k pcmData] by (simp add: mult.commute)
    have ok: "?out ! k = (if ?x \<le> 0 then ?x else ?x - 1)"
      using k floatTo16_pcm16 [OF r] by (simp add: pcm16Floats_def)
    have "getInt16 (concat (map int16Bytes ?out)) (2 * k) = Some (?out ! k)"
      using k n floatTo16_range [of "?floats ! k"]
      by (intro getInt16_int16Bytes) simp_all
    then have gy: "getInt16 (drop 44 (header @ concat (map int16Bytes ?out))) (2 * k)
        = Some (if ?x \<le> 0 then ?x else ?x - 1)"
      using h ok by simp
    have "\<bar>(if ?x \<le> 0 then ?x else ?x - 1) - ?x\<bar> \<le> 1" by simp
    with gx gy show ?thesis by blast
  qed
  from c w l s show ?thesis by blast
qed

theorem pcm16_roundtrip_within_one_witness:
  "length [0, 128, 255, 127, 1, 0, 0, 0 :: byte] mod 2 = 0
   \<and> convertPCM16ToFloat32 [0, 128, 255, 127, 1, 0, 0, 0] 24000 24000 =
       Some [Fin (- 1), Fin (32767 / 32768), Fin (1 / 32768), Fin 0]
   \<and> getInt16 [0, 128, 255, 127, 1, 0, 0, 0] 2 = Some 32767
   \<and> (\<exists>wav. writeWav [[Fin (- 1), Fin (32767 / 32768), Fin (1 / 32768), Fin 0]] 24000 1 4 = Some wav
          \<and> length wav = 52
          \<and> getInt16 (drop 44 wav) 2 = Some 32766)"
proof -
  let ?pcm = "[0, 128, 255, 127, 1, 0, 0, 0 :: byte]"
  have e: "length ?pcm mod 2 = 0" by simp
  have v: "convertPCM16ToFloat32 ?pcm 24000 24000 =
       Some [Fin (- 1), Fin (32767 / 32768), Fin (1 / 32768), Fin 0]"
    by (simp add: convertPCM16ToFloat32_def pcm16Loop.simps getInt16_def resampleFloat32_def)
  have g: "getInt16 ?pcm 2 = Some 32767"
    by (simp add: getInt16_def)
  obtain floats wav where
    c: "convertPCM16ToFloat32 ?pcm 24000 24000 = Some floats"
    and w: "writeWav [floats] 24000 1 (length floats) = Some wav"
    and l: "length wav = 44 + length ?pcm"
    and s: "\<forall>k < length ?pcm div 2. \<exists>x y.
               getInt16 ?pcm (2 * k) = Some x
             \<and> getInt16 (drop 44 wav) (2 * k) = Some y
             \<and> \<bar>y - x\<bar> \<le> 1
             \<and> y = (if x \<le> 0 then x else x - 1)"
    using pcm16_roundtrip_within_one [OF e, of 24000] by blast
  from c v have f: "floats = [Fin (- 1), Fin (32767 / 32768), Fin (1 / 32768), Fin 0]"
    by simp
  from s have "\<exists>x y. getInt16 ?pcm (2 * 1) = Some x
             \<and> getInt16 (drop 44 wav) (2 * 1) = Some y
             \<and> \<bar>y - x\<bar> \<le> 1
             \<and> y = (if x \<le> 0 then x else x - 1)"
    by (rule allE [where x = 1]) simp
  with g have y: "getInt16 (drop 44 wav) 2 = Some 32766" by auto
  have n: "length [Fin (- 1), Fin (32767 / 32768), Fin (1 / 32768), Fin 0] = 4" by simp
  have w': "writeWav [[Fin (- 1), Fin (32767 / 32768), Fin (1 / 32768), Fin 0]] 24000 1 4 = Some wav"
    using w unfolding f n .
  have l': "length wav = 52" using l by simp
  from e v g w' l' y show ?thesis by blast
qed

section \<open>Properties of the rounding\<close>

lemma floor_rat_numeral:
  "\<lfloor>numeral a / numeral b :: rat\<rfloor> = numeral a div numeral b"
  using floor_divide_of_int_eq [of "numeral a" "numeral b", where ?'a = rat] by simp

lemma floor_rat_one_numeral:
  "\<lfloor>1 / numeral b :: rat\<rfloor> = 1 div numeral b"
  using floor_divide_of_int_eq [of 1 "numeral b", where ?'a = rat] by simp

lemma powi_succ: "(2 :: rat) powi (e + 1) = 2 * 2 powi e"
  by (simp add: power_int_add)

lemma powi_pred: "(2 :: rat) powi (e - 1) = 2 powi e / 2"
  by (simp add: power_int_diff)

lemma expo_up_bounds: "1 \<le> x \<Longrightarrow> 2 powi expo_up x \<le> x \<and> x < 2 powi (expo_up x + 1)"
proof (induction x rule: expo_up.induct)
  case (1 x)
  show ?case
  proof (cases "2 \<le> x")
    case True
    then have "1 \<le> x / 2" by simp
    from 1(1) [OF True this] have "2 powi expo_up (x / 2) \<le> x / 2"
      and "x / 2 < 2 powi (expo_up (x / 2) + 1)" by simp_all
    moreover have "expo_up x = expo_up (x / 2) + 1" using True by (subst expo_up.simps) simp
    moreover have "(2 :: rat) powi (expo_up (x / 2) + 1 + 1) = 2 * 2 powi (expo_up (x / 2) + 1)"
      by (rule powi_succ)
    moreover have "(2 :: rat) powi (expo_up (x / 2) + 1) = 2 * 2 powi expo_up (x / 2)"
      by (rule powi_succ)
    ultimately show ?thesis by (simp del: power_int_add)
  next
    case False
    then have "expo_up x = 0" by (subst expo_up.simps) simp
    then show ?thesis using False 1(2) by simp
  qed
qed

lemma expo_down_bounds:
  "0 < x \<Longrightarrow> x < 1 \<Longrightarrow> 2 powi expo_down x \<le> x \<and> x < 2 powi (expo_down x + 1)"
proof (induction x rule: expo_down.induct)
  case (1 x)
  have e: "expo_down x = expo_down (x * 2) - 1" using 1(2,3) by (subst expo_down.simps) simp
  show ?case
  proof (cases "x * 2 < 1")
    case True
    from 1(1) [OF _ _ True] 1(2,3) have "2 powi expo_down (x * 2) \<le> x * 2"
      and "x * 2 < 2 powi (expo_down (x * 2) + 1)" by simp_all
    moreover have "(2 :: rat) powi (expo_down (x * 2) - 1) = 2 powi expo_down (x * 2) / 2"
      by (rule powi_pred)
    moreover have "(2 :: rat) powi (expo_down (x * 2) - 1 + 1) = 2 powi expo_down (x * 2)"
      by simp
    moreover have "(2 :: rat) powi (expo_down (x * 2) + 1) = 2 * 2 powi expo_down (x * 2)"
      by (rule powi_succ)
    ultimately have "2 powi (expo_down (x * 2) - 1) \<le> x"
      and "x < 2 powi (expo_down (x * 2) - 1 + 1)" by linarith+
    then show ?thesis unfolding e by (intro conjI)
  next
    case False
    then have "expo_down (x * 2) = 0" by (subst expo_down.simps) simp
    then have "expo_down x = - 1" using e by simp
    then show ?thesis using False 1(3) by simp
  qed
qed

lemma expo_bounds: "0 < x \<Longrightarrow> 2 powi expo x \<le> x \<and> x < 2 powi (expo x + 1)"
  using expo_up_bounds [of x] expo_down_bounds [of x] by (auto simp: expo_def)

lemma expo_unique:
  assumes "2 powi e \<le> x" "x < 2 powi (e + 1)"
  shows "expo x = e"
proof -
  have pos: "0 < x" using assms(1) zero_less_power_int [of "2 :: rat" e] by linarith
  note b = expo_bounds [OF pos]
  have "\<not> e < expo x"
  proof
    assume "e < expo x"
    then have "e + 1 \<le> expo x" by simp
    then have "(2 :: rat) powi (e + 1) \<le> 2 powi expo x" by (intro power_int_increasing) simp_all
    then show False using b assms by linarith
  qed
  moreover have "\<not> expo x < e"
  proof
    assume "expo x < e"
    then have "expo x + 1 \<le> e" by simp
    then have "(2 :: rat) powi (expo x + 1) \<le> 2 powi e" by (intro power_int_increasing) simp_all
    then show False using b assms by linarith
  qed
  ultimately show ?thesis by simp
qed

lemma round_even_error: "\<bar>of_int (round_even y) - y\<bar> \<le> 1 / 2"
proof -
  have "of_int \<lfloor>y\<rfloor> \<le> y" "y < of_int \<lfloor>y\<rfloor> + 1" by linarith+
  then show ?thesis by (auto simp: round_even_def Let_def)
qed

lemma round_even_of_int [simp]: "round_even (of_int k) = k"
  by (simp add: round_even_def)

lemma round_even_mono_int: "of_int k \<le> y \<Longrightarrow> k \<le> round_even y"
proof -
  assume "of_int k \<le> y"
  then have "k \<le> \<lfloor>y\<rfloor>" by (simp add: le_floor_iff)
  then show ?thesis by (auto simp: round_even_def Let_def)
qed

lemma round_even_le_int: "y \<le> of_int k \<Longrightarrow> round_even y \<le> k"
proof -
  assume a: "y \<le> of_int k"
  show ?thesis
  proof (cases "y = of_int k")
    case True then show ?thesis by simp
  next
    case False
    then have "y < of_int k" using a by simp
    then have "\<lfloor>y\<rfloor> < k" by (simp add: floor_less_iff)
    then show ?thesis by (auto simp: round_even_def Let_def)
  qed
qed

lemma fl_zero [simp]: "fl p emin 0 = 0"
  by (simp add: fl_def)

lemma fl_nonneg: "0 \<le> x \<Longrightarrow> 0 \<le> fl p emin x"
proof -
  assume x: "0 \<le> x"
  show ?thesis
  proof (cases "x = 0")
    case True then show ?thesis by simp
  next
    case False
    define q :: rat where "q = 2 powi (max (expo \<bar>x\<bar>) emin - int p + 1)"
    have q: "0 < q" unfolding q_def by (rule zero_less_power_int) simp
    then have "of_int 0 \<le> x / q" using x by simp
    then have "0 \<le> round_even (x / q)" by (rule round_even_mono_int)
    then have "0 \<le> of_int (round_even (x / q)) * q" using q by simp
    then show ?thesis using False by (simp add: fl_def Let_def q_def)
  qed
qed

lemma fl_abs_error:
  assumes "x \<noteq> 0"
  shows "\<bar>fl p emin x - x\<bar> \<le> 2 powi (max (expo \<bar>x\<bar>) emin - int p)"
proof -
  define e where "e = max (expo \<bar>x\<bar>) emin"
  define q :: rat where "q = 2 powi (e - int p + 1)"
  have q: "0 < q" unfolding q_def by (rule zero_less_power_int) simp
  have f: "fl p emin x = of_int (round_even (x / q)) * q"
    using assms by (simp add: fl_def Let_def q_def e_def)
  have "fl p emin x - x = (of_int (round_even (x / q)) - x / q) * q"
    using q by (simp add: f algebra_simps)
  then have "\<bar>fl p emin x - x\<bar> = \<bar>of_int (round_even (x / q)) - x / q\<bar> * q"
    using q by (simp add: abs_mult)
  also have "\<dots> \<le> (1 / 2) * q"
    using round_even_error [of "x / q"] q by (intro mult_right_mono) simp_all
  also have "\<dots> = 2 powi (e - int p)"
    unfolding q_def by (simp add: power_int_add)
  finally show ?thesis unfolding e_def .
qed

lemma expo_ge:
  assumes "2 powi e \<le> x"
  shows "e \<le> expo x"
proof (rule ccontr)
  assume "\<not> e \<le> expo x"
  then have "expo x + 1 \<le> e" by simp
  then have "(2 :: rat) powi (expo x + 1) \<le> 2 powi e" by (intro power_int_increasing) simp_all
  moreover have "0 < x" using assms zero_less_power_int [of "2 :: rat" e] by linarith
  ultimately show False using expo_bounds [of x] assms by linarith
qed

lemma expo_less:
  assumes "0 < x" "x < 2 powi e"
  shows "expo x < e"
proof (rule ccontr)
  assume "\<not> expo x < e"
  then have "(2 :: rat) powi e \<le> 2 powi expo x" by (intro power_int_increasing) simp_all
  then show False using expo_bounds [OF assms(1)] assms(2) by linarith
qed

lemma fl_rel_error:
  assumes "2 powi emin \<le> x"
  shows "\<bar>fl p emin x - x\<bar> \<le> x * 2 powi (- int p)"
proof -
  have pos: "0 < x" using assms zero_less_power_int [of "2 :: rat" emin] by linarith
  have e: "max (expo \<bar>x\<bar>) emin = expo x" using expo_ge [OF assms] pos by simp
  have "\<bar>fl p emin x - x\<bar> \<le> 2 powi (expo x - int p)"
    using fl_abs_error [of x p emin] pos e by simp
  also have "\<dots> = 2 powi expo x * 2 powi (- int p)"
    by (simp add: power_int_diff power_int_minus field_simps)
  also have "\<dots> \<le> x * 2 powi (- int p)"
    using expo_bounds [OF pos] by (intro mult_right_mono) simp_all
  finally show ?thesis .
qed

lemma fl_of_nat:
  assumes "n < 2 ^ p" "emin \<le> 0"
  shows "fl p emin (of_nat n) = of_nat n"
proof (cases "n = 0")
  case True then show ?thesis by simp
next
  case False
  define x :: rat where "x = of_nat n"
  have x1: "1 \<le> x" using False by (simp add: x_def)
  have "x < of_nat (2 ^ p)" unfolding x_def using assms(1) by (simp only: of_nat_less_iff)
  then have xp: "x < 2 powi (int p)" by simp
  have e0: "0 \<le> expo x" using expo_ge [of 0 x] x1 by simp
  have ep: "expo x < int p" using expo_less [OF _ xp] x1 by simp
  define m where "m = nat (int p - 1 - expo x)"
  have "expo x - int p + 1 = - int m" using ep by (simp add: m_def)
  then have "(2 :: rat) powi (expo x - int p + 1) = 2 powi (- int m)" by (rule arg_cong)
  also have "\<dots> = 1 / 2 ^ m" by (simp add: power_int_minus field_simps)
  finally have q: "(2 :: rat) powi (expo x - int p + 1) = 1 / 2 ^ m" .
  have "x / (1 / 2 ^ m) = of_int (int n * 2 ^ m)" by (simp add: x_def)
  then have "round_even (x / (1 / 2 ^ m)) = int n * 2 ^ m"
    by (simp only: round_even_of_int)
  then have "of_int (round_even (x / (1 / 2 ^ m))) * (1 / 2 ^ m) = x"
    by (simp add: x_def)
  moreover have "max (expo \<bar>x\<bar>) emin = expo x" using e0 assms(2) x1 by simp
  moreover have "x \<noteq> 0" using x1 by simp
  ultimately show ?thesis unfolding x_def [symmetric] by (simp add: fl_def Let_def q)
qed

lemma fl_bound:
  assumes "\<bar>x\<bar> < 2 powi e" "emin \<le> e"
  shows "\<bar>fl p emin x\<bar> < 2 powi e + 2 powi (e - int p)"
proof (cases "x = 0")
  case True
  have "(0 :: rat) < 2 powi e + 2 powi (e - int p)"
    by (intro add_pos_pos zero_less_power_int) simp_all
  then show ?thesis using True by simp
next
  case False
  then have "expo \<bar>x\<bar> < e" using assms(1) by (intro expo_less) simp_all
  then have "max (expo \<bar>x\<bar>) emin - int p \<le> e - int p" using assms(2) by simp
  then have "(2 :: rat) powi (max (expo \<bar>x\<bar>) emin - int p) \<le> 2 powi (e - int p)"
    by (intro power_int_increasing) simp_all
  then have "\<bar>fl p emin x - x\<bar> \<le> 2 powi (e - int p)"
    using fl_abs_error [OF False, of p emin] by linarith
  then show ?thesis using assms(1) by linarith
qed

lemma rnd64_Fin:
  assumes "\<bar>x\<bar> < 2 ^ 1023"
  shows "rnd64 (Fin x) = Fin (fl64 x)"
proof -
  have "\<bar>x\<bar> < 2 powi 1023" using assms by simp
  then have "\<bar>fl 53 (- 1022) x\<bar> < 2 powi 1023 + 2 powi (1023 - int 53)"
    by (rule fl_bound) simp
  also have "\<dots> \<le> 2 ^ 1024" by simp
  finally show ?thesis by (simp add: rnd64_def fl64_def)
qed

lemma rnd32_Fin:
  assumes "\<bar>x\<bar> < 2 ^ 127"
  shows "rnd32 (Fin x) = Fin (fl32 x)"
proof -
  have "\<bar>x\<bar> < 2 powi 127" using assms by simp
  then have "\<bar>fl 24 (- 126) x\<bar> < 2 powi 127 + 2 powi (127 - int 24)"
    by (rule fl_bound) simp
  also have "\<dots> \<le> 2 ^ 128" by simp
  finally show ?thesis by (simp add: rnd32_def fl32_def)
qed

lemma fl64_of_nat: "n < 2 ^ 53 \<Longrightarrow> fl64 (of_nat n) = of_nat n"
  unfolding fl64_def by (rule fl_of_nat) simp_all

lemma fl64_nonneg: "0 \<le> x \<Longrightarrow> 0 \<le> fl64 x"
  unfolding fl64_def by (rule fl_nonneg)

lemma fl64_zero [simp]: "fl64 0 = 0"
  by (simp add: fl64_def)

lemma fl64_rel_error:
  assumes "1 / 2 ^ 1022 \<le> x"
  shows "\<bar>fl64 x - x\<bar> \<le> x / 2 ^ 53"
proof -
  have "(2 :: rat) powi (- 1022) \<le> x" using assms by (simp add: power_int_minus field_simps)
  from fl_rel_error [OF this, of 53] show ?thesis
    by (simp add: fl64_def power_int_minus field_simps)
qed

lemma rnd64_of_nat: "n < 2 ^ 53 \<Longrightarrow> rnd64 (Fin (of_nat n)) = Fin (of_nat n)"
proof -
  assume n: "n < 2 ^ 53"
  have "(of_nat n :: rat) < of_nat (2 ^ 53)" using n by (simp only: of_nat_less_iff)
  then have "\<bar>of_nat n :: rat\<bar> < 2 ^ 1023" by simp
  then show ?thesis using n by (simp add: rnd64_Fin fl64_of_nat)
qed

lemma js_add_nat:
  "a + b < 2 ^ 53 \<Longrightarrow> js_add (Fin (of_nat a)) (Fin (of_nat b)) = Fin (of_nat (a + b))"
  using rnd64_of_nat [of "a + b"] by (simp add: js_add_def)

lemma js_sub_nat:
  "b \<le> a \<Longrightarrow> a < 2 ^ 53 \<Longrightarrow> js_sub (Fin (of_nat a)) (Fin (of_nat b)) = Fin (of_nat (a - b))"
  using rnd64_of_nat [of "a - b"] by (simp add: js_sub_def of_nat_diff)

lemma js_mul_nat:
  "a * b < 2 ^ 53 \<Longrightarrow> js_mul (Fin (of_nat a)) (Fin (of_nat b)) = Fin (of_nat (a * b))"
  using rnd64_of_nat [of "a * b"] by (simp add: js_mul_def)

lemma js_div_nat:
  assumes "0 < b" "b dvd a" "a div b < 2 ^ 53"
  shows "js_div (Fin (of_nat a)) (Fin (of_nat b)) = Fin (of_nat (a div b))"
proof -
  have "(of_nat a / of_nat b :: rat) = of_nat (a div b)"
    using assms(1,2) by (auto elim!: dvdE)
  then show ?thesis using rnd64_of_nat [OF assms(3)] assms(1) by (simp add: js_div_def)
qed

lemma toIndex_nat: "n < 2 ^ 53 \<Longrightarrow> toIndex (Fin (of_nat n)) = Some n"
  by (simp add: js_trunc_def)

lemma toUint32_nat: "toUint32 (Fin (of_nat n)) = n mod 4294967296"
  by (simp add: js_trunc_def nat_mod_distrib)

text \<open>
  The facts that evaluate the rounding on numerals. The exponent is unfolded only where
  the comparison is decided, so that a term with a variable is left alone.
\<close>

lemma expo_up_step: "2 \<le> x \<Longrightarrow> expo_up x = expo_up (x / 2) + 1"
  by (subst expo_up.simps) simp

lemma expo_up_stop: "x < 2 \<Longrightarrow> expo_up x = 0"
  by (subst expo_up.simps) simp

lemma expo_down_step: "0 < x \<Longrightarrow> x < 1 \<Longrightarrow> expo_down x = expo_down (x * 2) - 1"
  by (subst expo_down.simps) simp

lemma expo_down_stop: "1 \<le> x \<Longrightarrow> expo_down x = 0"
  by (subst expo_down.simps) simp

lemmas fl_eval = fl64_def fl32_def fl_def expo_def expo_up_step expo_up_stop
  expo_down_step expo_down_stop round_even_def Let_def floor_rat_numeral floor_rat_one_numeral

lemmas js_eval = js_div_def js_mul_def js_add_def js_sub_def rnd64_def rnd32_def fl_eval

section \<open>Properties of the resampler\<close>

lemma resampleLoop_eq:
  "i \<le> newLength \<Longrightarrow> length out = newLength \<Longrightarrow>
   resampleLoop inputArray ratio newLength i out =
     take i out @ map (interpolate inputArray ratio) [i..<newLength]"
proof (induction inputArray ratio newLength i out rule: resampleLoop.induct)
  case (1 inputArray ratio newLength i outputArray)
  show ?case
  proof (cases "i < newLength")
    case True
    let ?v = "interpolate inputArray ratio i"
    have "resampleLoop inputArray ratio newLength i outputArray =
        resampleLoop inputArray ratio newLength (i + 1) (outputArray[i := ?v])"
      using True by (subst resampleLoop.simps) simp
    also have "\<dots> = take (i + 1) (outputArray[i := ?v])
        @ map (interpolate inputArray ratio) [i + 1..<newLength]"
      using True "1.prems" by (intro "1.IH") simp_all
    also have "take (i + 1) (outputArray[i := ?v]) = take i outputArray @ [?v]"
      using True "1.prems" by (simp add: take_Suc_conv_app_nth)
    finally show ?thesis using True by (simp add: upt_conv_Cons)
  next
    case False
    then have "i = newLength" using "1.prems" by simp
    then show ?thesis using "1.prems" by (subst resampleLoop.simps) simp
  qed
qed

lemma ratio_bounds:
  assumes "0 < originalRate" "0 < targetRate" "originalRate < 2 ^ 53" "targetRate < 2 ^ 53"
  shows "1 / 2 ^ 53 \<le> (of_nat targetRate / of_nat originalRate :: rat)"
    and "(of_nat targetRate / of_nat originalRate :: rat) < 2 ^ 53"
proof -
  have a: "(of_nat originalRate :: rat) < 2 ^ 53" "(of_nat targetRate :: rat) < 2 ^ 53"
    "1 \<le> (of_nat originalRate :: rat)" "1 \<le> (of_nat targetRate :: rat)"
    using assms by simp_all
  then show "1 / 2 ^ 53 \<le> (of_nat targetRate / of_nat originalRate :: rat)"
    by (simp add: field_simps)
  from a show "(of_nat targetRate / of_nat originalRate :: rat) < 2 ^ 53"
    by (simp add: field_simps)
qed

lemma ratio_fl:
  assumes "0 < originalRate" "0 < targetRate" "originalRate < 2 ^ 53" "targetRate < 2 ^ 53"
  shows "js_div (Fin (of_nat targetRate)) (Fin (of_nat originalRate))
           = Fin (fl64 (of_nat targetRate / of_nat originalRate))"
    and "\<bar>fl64 (of_nat targetRate / of_nat originalRate) - of_nat targetRate / of_nat originalRate\<bar>
           \<le> (of_nat targetRate / of_nat originalRate) / 2 ^ 53"
proof -
  let ?q = "of_nat targetRate / of_nat originalRate :: rat"
  note b = ratio_bounds [OF assms]
  have "\<bar>?q\<bar> < 2 ^ 1023" using b by simp
  then show "js_div (Fin (of_nat targetRate)) (Fin (of_nat originalRate)) = Fin (fl64 ?q)"
    using assms(1) by (simp add: js_div_def rnd64_Fin)
  have "(1 :: rat) / 2 ^ 1022 \<le> 1 / 2 ^ 53" by simp
  then have "1 / 2 ^ 1022 \<le> ?q" using b(1) by (rule order_trans)
  then show "\<bar>fl64 ?q - ?q\<bar> \<le> ?q / 2 ^ 53" by (rule fl64_rel_error)
qed

lemma resample_position_below:
  fixes r x s :: rat
  assumes r: "0 < r"
    and L: "of_nat len * r \<le> 2 ^ 51"
    and x: "x \<le> of_nat len * r * (1 + 1 / 2 ^ 53)"
    and i: "of_nat i + 1 \<le> x + 1 / 2"
    and s: "s \<le> of_nat i / r * (1 + 1 / 2 ^ 53)"
  shows "s < of_nat len"
proof -
  define L where "L = of_nat len * r"
  define SR where "SR = s * r"
  define I :: rat where "I = of_nat i"
  have "s * r \<le> (of_nat i / r * (1 + 1 / 2 ^ 53)) * r"
    using s r by (intro mult_right_mono) simp_all
  also have "\<dots> = of_nat i * (1 + 1 / 2 ^ 53)" using r by simp
  finally have a: "SR \<le> I * (1 + 1 / 2 ^ 53)" unfolding SR_def I_def .
  have b: "I + 1 \<le> x + 1 / 2" using i unfolding I_def .
  have c: "x \<le> L * (1 + 1 / 2 ^ 53)" using x unfolding L_def .
  have d: "L \<le> 2 ^ 51" using L unfolding L_def .
  from a b c d have "SR < L" by simp
  then have "s * r < of_nat len * r" unfolding SR_def L_def .
  then show ?thesis using r by simp
qed

text \<open>The facts about one run of the resampler with feasible sizes.\<close>

lemma resample_feasible:
  assumes o: "0 < originalRate" "originalRate < 2 ^ 53"
    and t: "0 < targetRate" "targetRate < 2 ^ 53"
    and f: "len * targetRate \<le> 2 ^ 50 * originalRate"
  defines "r \<equiv> fl64 (of_nat targetRate / of_nat originalRate)"
  defines "x \<equiv> fl64 (of_nat len * r)"
  shows "1 / 2 ^ 54 \<le> r" and "r < 2 ^ 54" and "of_nat len * r \<le> 2 ^ 51"
    and "js_mul (Fin (of_nat len)) (Fin r) = Fin x"
    and "0 \<le> x" and "x \<le> of_nat len * r * (1 + 1 / 2 ^ 53)"
proof -
  let ?q = "of_nat targetRate / of_nat originalRate :: rat"
  note b = ratio_bounds [OF o(1) t(1) o(2) t(2)]
  have e: "\<bar>r - ?q\<bar> \<le> ?q / 2 ^ 53"
    unfolding r_def by (rule ratio_fl(2) [OF o(1) t(1) o(2) t(2)])
  from e b show r1: "1 / 2 ^ 54 \<le> r" by simp
  from e b show r2: "r < 2 ^ 54" by simp
  have "(of_nat (len * targetRate) :: rat) \<le> of_nat (2 ^ 50 * originalRate)"
    using f by (simp only: of_nat_le_iff)
  then have "(of_nat len * of_nat targetRate :: rat) \<le> 2 ^ 50 * of_nat originalRate"
    by simp
  then have q: "of_nat len * ?q \<le> 2 ^ 50" using o(1) by (simp add: field_simps)
  have "r \<le> ?q + ?q / 2 ^ 53" using e by linarith
  also have "\<dots> = ?q * (1 + 1 / 2 ^ 53)" by (simp add: algebra_simps)
  finally have "r \<le> ?q * (1 + 1 / 2 ^ 53)" .
  then have "of_nat len * r \<le> of_nat len * (?q * (1 + 1 / 2 ^ 53))"
    by (intro mult_left_mono) simp_all
  also have "\<dots> = (of_nat len * ?q) * (1 + 1 / 2 ^ 53)" by simp
  also have "\<dots> \<le> 2 ^ 50 * (1 + 1 / 2 ^ 53)"
    using q by (intro mult_right_mono) simp_all
  finally have L: "of_nat len * r \<le> 2 ^ 50 * (1 + 1 / 2 ^ 53)" .
  then show L51: "of_nat len * r \<le> 2 ^ 51" by simp
  have r0: "0 < r" using r1 by (rule less_le_trans [rotated]) simp
  have n0: "0 \<le> of_nat len * r" using r0 by simp
  then have "\<bar>of_nat len * r\<bar> < 2 ^ 1023" using L51 by simp
  then show "js_mul (Fin (of_nat len)) (Fin r) = Fin x"
    by (simp add: js_mul_def rnd64_Fin x_def)
  show "0 \<le> x" unfolding x_def using n0 by (rule fl64_nonneg)
  show "x \<le> of_nat len * r * (1 + 1 / 2 ^ 53)"
  proof (cases "len = 0")
    case True
    then show ?thesis by (simp add: x_def)
  next
    case False
    then have "(1 :: rat) \<le> of_nat len" by simp
    then have "1 * r \<le> of_nat len * r" using r0 by (intro mult_right_mono) simp_all
    then have "r \<le> of_nat len * r" by (simp only: mult_1)
    with r1 have "1 / 2 ^ 54 \<le> of_nat len * r" by (rule order_trans)
    moreover have "(1 :: rat) / 2 ^ 1022 \<le> 1 / 2 ^ 54" by simp
    ultimately have "1 / 2 ^ 1022 \<le> of_nat len * r" by (rule order_trans [rotated])
    from fl64_rel_error [OF this]
    have "x \<le> of_nat len * r + of_nat len * r / 2 ^ 53" unfolding x_def by linarith
    also have "\<dots> = of_nat len * r * (1 + 1 / 2 ^ 53)" by (simp add: algebra_simps)
    finally show ?thesis .
  qed
qed

lemma resample_newLength:
  assumes o: "0 < originalRate" "originalRate < 2 ^ 53"
    and t: "0 < targetRate" "targetRate < 2 ^ 53"
    and f: "len * targetRate \<le> 2 ^ 50 * originalRate"
  shows "toIndex (Math_round (js_mul (Fin (of_nat len))
            (js_div (Fin (of_nat targetRate)) (Fin (of_nat originalRate)))))
         = Some (nat (math_round (fl64 (of_nat len
                   * fl64 (of_nat targetRate / of_nat originalRate)))))"
proof -
  let ?r = "fl64 (of_nat targetRate / of_nat originalRate)"
  let ?x = "fl64 (of_nat len * ?r)"
  note a = resample_feasible [OF assms]
  have "0 \<le> ?x + 1 / 2" using a(5) by simp
  then have n0: "0 \<le> math_round ?x" unfolding math_round_def by simp
  have "?x \<le> 2 ^ 51 * (1 + 1 / 2 ^ 53)" using a(3,6) by simp
  then have "?x + 1 / 2 < of_int 9007199254740991" by simp
  then have n1: "math_round ?x < 9007199254740991"
    unfolding math_round_def by (simp only: floor_less_iff)
  show ?thesis
    unfolding ratio_fl(1) [OF o(1) t(1) o(2) t(2)] a(4)
    using n0 n1 by (simp add: js_trunc_def)
qed

lemma resampleFloat32_unequal:
  assumes "originalRate \<noteq> targetRate"
    and o: "0 < originalRate" "originalRate < 2 ^ 53"
    and t: "0 < targetRate" "targetRate < 2 ^ 53"
    and f: "length inputArray * targetRate \<le> 2 ^ 50 * originalRate"
  shows "resampleFloat32 inputArray originalRate targetRate =
     Some (map (interpolate inputArray (Fin (fl64 (of_nat targetRate / of_nat originalRate))))
            [0..<nat (math_round (fl64 (of_nat (length inputArray)
                                   * fl64 (of_nat targetRate / of_nat originalRate))))])"
  using assms(1)
  by (simp add: resampleFloat32_def Let_def resample_newLength [OF o t f] resampleLoop_eq)
     (simp add: ratio_fl(1) [OF o(1) t(1) o(2) t(2)])

lemma resample_indices:
  assumes o: "0 < originalRate" "originalRate < 2 ^ 53"
    and t: "0 < targetRate" "targetRate < 2 ^ 53"
    and f: "length inputArray * targetRate \<le> 2 ^ 50 * originalRate"
    and l: "length inputArray < 2 ^ 53"
    and i: "i < nat (math_round (fl64 (of_nat (length inputArray)
                   * fl64 (of_nat targetRate / of_nat originalRate))))"
  defines "r \<equiv> fl64 (of_nat targetRate / of_nat originalRate)"
  defines "pos \<equiv> fl64 (of_nat i / r)"
  shows "srcIndex (Fin r) i = Fin pos"
    and "0 \<le> pos" and "pos < of_nat (length inputArray)"
    and "index0 (Fin r) i = Fin (of_nat (nat \<lfloor>pos\<rfloor>))"
    and "nat \<lfloor>pos\<rfloor> < length inputArray"
    and "index1 inputArray (Fin r) i
           = Fin (of_nat (min (nat \<lfloor>pos\<rfloor> + 1) (length inputArray - 1)))"
proof -
  let ?len = "length inputArray"
  let ?x = "fl64 (of_nat ?len * r)"
  have a: "1 / 2 ^ 54 \<le> r" "r < 2 ^ 54" "of_nat ?len * r \<le> 2 ^ 51"
    "0 \<le> ?x" "?x \<le> of_nat ?len * r * (1 + 1 / 2 ^ 53)"
    using resample_feasible [OF o t f] unfolding r_def by simp_all
  have r0: "0 < r" using a(1) by (rule less_le_trans [rotated]) simp
  have "int i + 1 \<le> math_round ?x" using i unfolding r_def by simp
  then have "of_int (int i + 1) \<le> ?x + 1 / 2"
    unfolding math_round_def by (simp only: le_floor_iff)
  then have i1: "of_nat i + 1 \<le> ?x + 1 / 2" by simp
  have "?x \<le> 2 ^ 51 * (1 + 1 / 2 ^ 53)" using a(3,5) by simp
  with i1 have i2: "(of_nat i :: rat) \<le> 2 ^ 52" by simp
  have "1 \<le> 2 ^ 54 * r" using a(1) by simp
  then have "of_nat i * 1 \<le> of_nat i * (2 ^ 54 * r)" by (intro mult_left_mono) simp_all
  then have "of_nat i \<le> (of_nat i * 2 ^ 54) * r" by (simp only: mult_1_right mult.assoc)
  then have "of_nat i / r \<le> of_nat i * 2 ^ 54" using r0 by (simp only: pos_divide_le_eq)
  also have "\<dots> \<le> 2 ^ 52 * 2 ^ 54" using i2 by (intro mult_right_mono) simp_all
  finally have d1: "of_nat i / r \<le> 2 ^ 52 * 2 ^ 54" .
  have d0: "0 \<le> of_nat i / r" using r0 by simp
  have "\<bar>of_nat i / r\<bar> < 2 ^ 1023" using d0 d1 by simp
  then show s: "srcIndex (Fin r) i = Fin pos"
    using r0 by (simp add: srcIndex_def js_div_def rnd64_Fin pos_def)
  show p0: "0 \<le> pos" unfolding pos_def using d0 by (rule fl64_nonneg)
  have pe: "pos \<le> of_nat i / r * (1 + 1 / 2 ^ 53)"
  proof (cases "i = 0")
    case True
    then show ?thesis by (simp add: pos_def)
  next
    case False
    then have "(1 :: rat) \<le> of_nat i" by simp
    then have "1 / 2 ^ 54 * r \<le> of_nat i" using a(2) by simp
    then have "1 / 2 ^ 54 \<le> of_nat i / r" using r0 by (simp only: pos_le_divide_eq)
    moreover have "(1 :: rat) / 2 ^ 1022 \<le> 1 / 2 ^ 54" by simp
    ultimately have "1 / 2 ^ 1022 \<le> of_nat i / r" by (rule order_trans [rotated])
    from fl64_rel_error [OF this]
    have "pos \<le> of_nat i / r + of_nat i / r / 2 ^ 53" unfolding pos_def by linarith
    also have "\<dots> = of_nat i / r * (1 + 1 / 2 ^ 53)" by (simp add: algebra_simps)
    finally show ?thesis .
  qed
  show p1: "pos < of_nat ?len"
    using r0 a(3) a(5) i1 pe by (rule resample_position_below)
  have k0: "0 \<le> \<lfloor>pos\<rfloor>" using p0 by simp
  have "\<lfloor>pos\<rfloor> < int ?len" using p1 by (simp add: floor_less_iff)
  then show k1: "nat \<lfloor>pos\<rfloor> < ?len" using k0 by linarith
  have fk: "(of_int \<lfloor>pos\<rfloor> :: rat) = of_nat (nat \<lfloor>pos\<rfloor>)" using k0 by simp
  show i0: "index0 (Fin r) i = Fin (of_nat (nat \<lfloor>pos\<rfloor>))"
    unfolding index0_def s by (simp only: math_floor.simps fk)
  have "nat \<lfloor>pos\<rfloor> + 1 < 2 ^ 53" using k1 l by simp
  from js_add_nat [OF this]
  have ad: "js_add (Fin (of_nat (nat \<lfloor>pos\<rfloor>))) (Fin 1) = Fin (of_nat (nat \<lfloor>pos\<rfloor> + 1))"
    by simp
  have "1 \<le> ?len" using k1 by simp
  from js_sub_nat [OF this l]
  have sb: "js_sub (Fin (of_nat ?len)) (Fin 1) = Fin (of_nat (?len - 1))" by simp
  show "index1 inputArray (Fin r) i = Fin (of_nat (min (nat \<lfloor>pos\<rfloor> + 1) (?len - 1)))"
    unfolding index1_def i0 ad sb by (simp add: math_min_def min_def)
qed

lemma readAt_nat: "k < length xs \<Longrightarrow> readAt xs (Fin (of_nat k)) = xs ! k"
  by (simp add: readAt_def)

text \<open>The facts that evaluate the resampler on numerals.\<close>

lemmas resample_eval = interpolate_def srcIndex_def index0_def index1_def readAt_def
  math_min_def math_round_def js_eval



lemma interpolate_feasible:
  assumes o: "0 < originalRate" "originalRate < 2 ^ 53"
    and t: "0 < targetRate" "targetRate < 2 ^ 53"
    and f: "length s * targetRate \<le> 2 ^ 50 * originalRate"
    and l: "length s < 2 ^ 53"
    and i: "i < nat (math_round (fl64 (of_nat (length s)
                   * fl64 (of_nat targetRate / of_nat originalRate))))"
  shows "interpolate s (Fin (fl64 (of_nat targetRate / of_nat originalRate))) i =
     (let pos = fl64 (of_nat i / fl64 (of_nat targetRate / of_nat originalRate));
          k = nat \<lfloor>pos\<rfloor>;
          f = fl64 (pos - of_nat k)
      in rnd32 (js_add (js_mul (Fin (fl64 (1 - f))) (s ! k))
                       (js_mul (Fin f) (s ! min (k + 1) (length s - 1)))))"
proof -
  let ?r = "fl64 (of_nat targetRate / of_nat originalRate)"
  let ?pos = "fl64 (of_nat i / ?r)"
  let ?k = "nat \<lfloor>?pos\<rfloor>"
  let ?f = "fl64 (?pos - of_nat ?k)"
  note a = resample_indices [OF o t f l i]
  have k: "(of_nat ?k :: rat) = of_int \<lfloor>?pos\<rfloor>" using a(2) by simp
  have d0: "0 \<le> ?pos - of_nat ?k" and d1: "?pos - of_nat ?k < 1"
    unfolding k by linarith+
  then have "\<bar>?pos - of_nat ?k\<bar> < 2 ^ 1023" by simp
  then have t: "js_sub (Fin ?pos) (Fin (of_nat ?k)) = Fin ?f"
    by (simp add: js_sub_def rnd64_Fin)
  have "\<bar>?pos - of_nat ?k\<bar> < 2 powi 0" using d0 d1 by simp
  then have "\<bar>fl 53 (- 1022) (?pos - of_nat ?k)\<bar> < 2 powi 0 + 2 powi (0 - int 53)"
    by (rule fl_bound) simp
  then have "\<bar>?f\<bar> < 2" by (simp add: fl64_def)
  then have "\<bar>1 - ?f\<bar> < 2 ^ 1023" by simp
  then have w: "js_sub (Fin 1) (Fin ?f) = Fin (fl64 (1 - ?f))"
    by (simp add: js_sub_def rnd64_Fin)
  have b1: "min (?k + 1) (length s - 1) < length s" using a(5) by simp
  have r0: "readAt s (Fin (of_nat ?k)) = s ! ?k" using a(5) by (rule readAt_nat)
  have r1: "readAt s (Fin (of_nat (min (?k + 1) (length s - 1)))) = s ! min (?k + 1) (length s - 1)"
    using b1 by (rule readAt_nat)
  show ?thesis
    unfolding interpolate_def Let_def a(1) a(4) a(6) t w r0 r1 by (rule refl)
qed

lemma map_upt_10:
  "map f [0..<10] = [f 0, f 1, f 2, f 3, f 4, f 5, f 6, f 7, f 8, f 9]"
proof -
  have "[0..<10] = [0, 1, 2, 3, 4, 5, 6, 7, 8, 9 :: nat]"
    by (simp add: upt_rec)
  then show ?thesis by simp
qed

lemma ramp_float32:
  "map (\<lambda>k. rnd32 (js_div (Fin (of_nat k)) (Fin 9))) [0..<10] =
     [Fin 0, Fin (14913081 / 134217728), Fin (14913081 / 67108864),
      Fin (11184811 / 33554432), Fin (14913081 / 33554432), Fin (2330169 / 4194304),
      Fin (11184811 / 16777216), Fin (6524473 / 8388608), Fin (14913081 / 16777216), Fin 1]"
  unfolding map_upt_10 by (simp add: js_eval)

lemma ramp_resampled:
  "resampleFloat32
     [Fin 0, Fin (14913081 / 134217728), Fin (14913081 / 67108864),
      Fin (11184811 / 33554432), Fin (14913081 / 33554432), Fin (2330169 / 4194304),
      Fin (11184811 / 16777216), Fin (6524473 / 8388608), Fin (14913081 / 16777216), Fin 1]
     10 20 =
     Some [Fin 0, Fin (14913081 / 268435456), Fin (14913081 / 134217728),
           Fin (11184811 / 67108864), Fin (14913081 / 67108864), Fin (2330169 / 8388608),
           Fin (11184811 / 33554432), Fin (6524473 / 16777216), Fin (14913081 / 33554432),
           Fin (1 / 2), Fin (2330169 / 4194304), Fin (1281593 / 2097152),
           Fin (11184811 / 16777216), Fin (6058439 / 8388608), Fin (6524473 / 8388608),
           Fin (6990507 / 8388608), Fin (14913081 / 16777216), Fin (3961287 / 4194304),
           Fin 1, Fin 1]"
  by (simp add: resampleFloat32_unequal upt_rec resample_eval)

text \<open>
  Claim C6, as amended. With equal rates the resampler returns its input. With unequal
  positive whole rates below \<open>2^53\<close>, and an input whose resampled length
  \<open>length * targetRate / originalRate\<close> is at most \<open>2^50\<close> samples, every step is the
  binary64 operation of the source: with \<open>ratio\<close> the rounded quotient
  \<open>targetRate / originalRate\<close>, the output has \<open>round (fl64 (length * ratio))\<close> samples,
  and sample \<open>i\<close> is the interpolation at the rounded position \<open>pos = fl64 (i / ratio)\<close>:
  with \<open>k\<close> its floor and \<open>f\<close> its fractional part, the binary32 rounding of the binary64
  sum of the binary64 products \<open>(1 - f) * s[k]\<close> and \<open>f * s[min (k + 1) (length - 1)]\<close>.
  The ramp \<open>[0, 1, ..., 9] / 9\<close>, held in a \<open>Float32Array\<close> and resampled from 10 Hz to
  20 Hz, gives 20 samples that never decrease, the first equal to the ramp's first and the
  last equal to the ramp's last.
\<close>

theorem resample_linear_interpolation:
  "resampleFloat32 s rate rate = Some s
   \<and> (0 < originalRate \<and> originalRate < 2 ^ 53 \<and> 0 < targetRate \<and> targetRate < 2 ^ 53
      \<and> originalRate \<noteq> targetRate
      \<and> length s < 2 ^ 53 \<and> length s * targetRate \<le> 2 ^ 50 * originalRate \<longrightarrow>
        (\<exists>out. resampleFloat32 s originalRate targetRate = Some out
           \<and> length out = nat (math_round (fl64 (of_nat (length s)
                                  * fl64 (of_nat targetRate / of_nat originalRate))))
           \<and> (\<forall>i < length out.
                 out ! i =
                   (let pos = fl64 (of_nat i / fl64 (of_nat targetRate / of_nat originalRate));
                        k = nat \<lfloor>pos\<rfloor>;
                        f = fl64 (pos - of_nat k)
                    in rnd32 (js_add (js_mul (Fin (fl64 (1 - f))) (s ! k))
                                     (js_mul (Fin f) (s ! min (k + 1) (length s - 1))))))))
   \<and> (\<exists>out. resampleFloat32 (map (\<lambda>k. rnd32 (js_div (Fin (of_nat k)) (Fin 9))) [0..<10]) 10 20
              = Some out
          \<and> length out = 20
          \<and> sorted_wrt (\<lambda>a b. \<not> num_less b a) out
          \<and> out ! 0 = map (\<lambda>k. rnd32 (js_div (Fin (of_nat k)) (Fin 9))) [0..<10] ! 0
          \<and> out ! 19 = map (\<lambda>k. rnd32 (js_div (Fin (of_nat k)) (Fin 9))) [0..<10] ! 9)"
proof -
  have same: "resampleFloat32 s rate rate = Some s"
    by (simp add: resampleFloat32_def)
  have general: "\<exists>out. resampleFloat32 s originalRate targetRate = Some out
           \<and> length out = nat (math_round (fl64 (of_nat (length s)
                                  * fl64 (of_nat targetRate / of_nat originalRate))))
           \<and> (\<forall>i < length out.
                 out ! i =
                   (let pos = fl64 (of_nat i / fl64 (of_nat targetRate / of_nat originalRate));
                        k = nat \<lfloor>pos\<rfloor>;
                        f = fl64 (pos - of_nat k)
                    in rnd32 (js_add (js_mul (Fin (fl64 (1 - f))) (s ! k))
                                     (js_mul (Fin f) (s ! min (k + 1) (length s - 1))))))"
    if o: "0 < originalRate" "originalRate < 2 ^ 53"
      and t: "0 < targetRate" "targetRate < 2 ^ 53"
      and ne: "originalRate \<noteq> targetRate"
      and l: "length s < 2 ^ 53"
      and f: "length s * targetRate \<le> 2 ^ 50 * originalRate"
  proof -
    let ?r = "fl64 (of_nat targetRate / of_nat originalRate)"
    let ?n = "nat (math_round (fl64 (of_nat (length s) * ?r)))"
    let ?out = "map (interpolate s (Fin ?r)) [0..<?n]"
    have r: "resampleFloat32 s originalRate targetRate = Some ?out"
      using ne o t f by (rule resampleFloat32_unequal)
    have n: "length ?out = ?n" by simp
    have v: "?out ! i =
        (let pos = fl64 (of_nat i / ?r); k = nat \<lfloor>pos\<rfloor>; f = fl64 (pos - of_nat k)
         in rnd32 (js_add (js_mul (Fin (fl64 (1 - f))) (s ! k))
                          (js_mul (Fin f) (s ! min (k + 1) (length s - 1)))))"
      if "i < length ?out" for i
    proof -
      from that have i: "i < ?n" by simp
      then have "?out ! i = interpolate s (Fin ?r) i" by simp
      also note interpolate_feasible [OF o t f l i]
      finally show ?thesis .
    qed
    from r n v show ?thesis by blast
  qed
  have ramp: "\<exists>out. resampleFloat32 (map (\<lambda>k. rnd32 (js_div (Fin (of_nat k)) (Fin 9))) [0..<10]) 10 20
              = Some out
          \<and> length out = 20
          \<and> sorted_wrt (\<lambda>a b. \<not> num_less b a) out
          \<and> out ! 0 = map (\<lambda>k. rnd32 (js_div (Fin (of_nat k)) (Fin 9))) [0..<10] ! 0
          \<and> out ! 19 = map (\<lambda>k. rnd32 (js_div (Fin (of_nat k)) (Fin 9))) [0..<10] ! 9"
    unfolding ramp_float32 ramp_resampled by simp
  from same general ramp show ?thesis by blast
qed

theorem resample_linear_interpolation_witness:
  "(0::nat) < 2 \<and> (2::nat) < 2 ^ 53 \<and> (0::nat) < 3 \<and> (3::nat) < 2 ^ 53 \<and> (2::nat) \<noteq> 3
   \<and> length [Fin 0, Fin 1] < 2 ^ 53 \<and> length [Fin 0, Fin 1] * 3 \<le> 2 ^ 50 * 2
   \<and> resampleFloat32 [Fin 0, Fin 1] 2 3 = Some [Fin 0, Fin (11184811 / 16777216), Fin 1]
   \<and> resampleFloat32 [Fin 0, Fin 1] 3 3 = Some [Fin 0, Fin 1]"
proof -
  have e: "resampleFloat32 [Fin 0, Fin 1] 2 3 = Some [Fin 0, Fin (11184811 / 16777216), Fin 1]"
    by (simp add: resampleFloat32_unequal upt_rec resample_eval)
  from resample_linear_interpolation [of "[Fin 0, Fin 1]" 3 2 3] e show ?thesis
    by simp
qed

text \<open>
  The claim as written takes the length and the positions in exact arithmetic. Seven
  samples resampled from 14 Hz to 61 Hz give 30 samples, where \<open>round (7 * 61 / 14)\<close>,
  the rounding of 30.5, is 31: the quotient \<open>61 / 14\<close> is rounded down in binary64, and so
  is its product with 7. And the middle sample of \<open>[0, 1]\<close> resampled from 2 Hz to 3 Hz is
  the binary32 number \<open>11184811 / 16777216\<close>, not the \<open>2 / 3\<close> of the exact interpolation.
\<close>

theorem resample_length_counterexample:
  "map_option length (resampleFloat32 (replicate 7 (Fin 0)) 14 61) = Some 30
   \<and> nat (math_round (of_nat (length (replicate 7 (Fin 0))) * (of_nat 61 / of_nat 14))) = 31
   \<and> resampleFloat32 [Fin 0, Fin 1] 2 3 = Some [Fin 0, Fin (11184811 / 16777216), Fin 1]"
proof -
  have a: "map_option length (resampleFloat32 (replicate 7 (Fin 0)) 14 61) = Some 30"
    by (simp add: resampleFloat32_unequal math_round_def fl_eval)
  have b: "nat (math_round (of_nat (length (replicate 7 (Fin 0))) * (of_nat 61 / of_nat 14))) = 31"
    by (simp add: math_round_def floor_rat_numeral)
  have c: "resampleFloat32 [Fin 0, Fin 1] 2 3 = Some [Fin 0, Fin (11184811 / 16777216), Fin 1]"
    by (simp add: resampleFloat32_unequal upt_rec resample_eval)
  from a b c show ?thesis by blast
qed

section \<open>Properties of the PCM16 encoder\<close>

lemma u16_bytes:
  "unat (of_nat v :: byte) + 256 * unat (of_nat (v div 256) :: byte) = v mod 65536"
proof -
  have "v mod 65536 = v mod (256 * 256)" by simp
  also have "\<dots> = 256 * (v div 256 mod 256) + v mod 256"
    by (rule mod_mult2_eq)
  finally show ?thesis by (simp add: unat_of_nat)
qed

lemma u32_bytes:
  "unat (of_nat v :: byte) + 256 * unat (of_nat (v div 256) :: byte)
     + 65536 * unat (of_nat (v div 65536) :: byte)
     + 16777216 * unat (of_nat (v div 16777216) :: byte) = v mod 4294967296"
proof -
  have "v mod 4294967296 = v mod (65536 * 65536)" by simp
  also have "\<dots> = 65536 * (v div 65536 mod 65536) + v mod 65536"
    by (rule mod_mult2_eq)
  also have "v mod 65536 = unat (of_nat v :: byte) + 256 * unat (of_nat (v div 256) :: byte)"
    by (rule u16_bytes [symmetric])
  also have "v div 65536 mod 65536 = unat (of_nat (v div 65536) :: byte)
      + 256 * unat (of_nat (v div 65536 div 256) :: byte)"
    by (rule u16_bytes [symmetric])
  also have "v div 65536 div 256 = v div 16777216"
    by (simp add: div_mult2_eq [symmetric])
  finally show ?thesis by simp
qed

lemma u32_bytes_high:
  "v mod 65536 + 65536 * unat (of_nat (v div 65536) :: byte)
     + 16777216 * unat (of_nat (v div 16777216) :: byte) = v mod 4294967296"
  using u32_bytes [of v] by (simp only: u16_bytes)

lemma wavHeaderWrites_fields:
  assumes "44 \<le> length view"
  shows "\<exists>header. wavHeaderWrites view chunkSize channels rate byteRate blockAlign bits dataSize
             = Some header
         \<and> length header = length view
         \<and> drop 44 header = drop 44 view
         \<and> map ((!) header) [0, 1, 2, 3] = map of_char ''RIFF''
         \<and> getUint32 header 4 = Some (chunkSize mod 4294967296)
         \<and> map ((!) header) [8, 9, 10, 11, 12, 13, 14, 15] = map of_char ''WAVEfmt ''
         \<and> getUint32 header 16 = Some 16
         \<and> getUint16 header 20 = Some 1
         \<and> getUint16 header 22 = Some (channels mod 65536)
         \<and> getUint32 header 24 = Some (rate mod 4294967296)
         \<and> getUint32 header 28 = Some (byteRate mod 4294967296)
         \<and> getUint16 header 32 = Some (blockAlign mod 65536)
         \<and> getUint16 header 34 = Some (bits mod 65536)
         \<and> map ((!) header) [36, 37, 38, 39] = map of_char ''data''
         \<and> getUint32 header 40 = Some (dataSize mod 4294967296)"
proof -
  have "view \<noteq> []" using assms by auto
  with assms show ?thesis
    apply (simp add: wavHeaderWrites_def setUint32_def setUint16_def setUint8_def)
    apply (simp add: getUint32_def getUint16_def u16_bytes u32_bytes u32_bytes_high)
    apply (simp add: numeral_2_eq_2 numeral_3_eq_3)
    done
qed

lemma replicate_44:
  "replicate 44 (0 :: byte) =
     [0, 0, 0, 0, 0, 0, 0, 0, 0, 0, 0, 0, 0, 0, 0, 0, 0, 0, 0, 0, 0, 0,
      0, 0, 0, 0, 0, 0, 0, 0, 0, 0, 0, 0, 0, 0, 0, 0, 0, 0, 0, 0, 0, 0]"
  by (simp add: eval_nat_numeral)

lemma js_trunc_of_nat: "js_trunc (of_nat n) = int n"
  by (simp add: js_trunc_def)

lemma js_mod_of_nat:
  assumes "0 < n"
  shows "js_mod (of_nat m) (of_nat n) = of_nat (m mod n)"
proof -
  have "\<not> (of_nat m / of_nat n :: rat) < 0"
    by (simp add: not_less)
  then have "js_trunc (of_nat m / of_nat n :: rat) = int (m div n)"
    by (simp add: js_trunc_def floor_divide_of_nat_eq)
  moreover have "(of_nat m :: rat) = of_nat n * of_nat (m div n) + of_nat (m mod n)"
    by (simp flip: of_nat_mult of_nat_add)
  ultimately show ?thesis by (simp add: js_mod_def)
qed

lemma getUint32_append:
  "off + 4 \<le> length header \<Longrightarrow> getUint32 (header @ data) off = getUint32 header off"
  by (simp add: getUint32_def nth_append)

lemma getUint16_append:
  "off + 2 \<le> length header \<Longrightarrow> getUint16 (header @ data) off = getUint16 header off"
  by (simp add: getUint16_def nth_append)

text \<open>The float encoder writes the same header, and its data loop leaves it alone.\<close>

lemma writeBytes_prefix:
  "writeBytes view off bs = Some view' \<Longrightarrow>
   length view' = length view \<and> take off view' = take off view"
proof (induction bs arbitrary: view off)
  case Nil
  then show ?case by simp
next
  case (Cons b bs)
  from Cons.prems have lt: "off < length view"
    by (simp add: setUint8_def split: if_splits)
  from Cons.prems have "writeBytes (view[off := b]) (off + 1) bs = Some view'"
    using lt by (simp add: setUint8_byte)
  from Cons.IH [OF this]
  have "length view' = length view" and t: "take (off + 1) view' = take (off + 1) (view[off := b])"
    by simp_all
  from t have "take off (take (off + 1) view') = take off (take (off + 1) (view[off := b]))"
    by simp
  then have "take off view' = take off view"
    by (simp add: min_def)
  with \<open>length view' = length view\<close> show ?case by simp
qed

lemma writeChannels_prefix:
  "writeChannels channelData numberOfChannels i offset view = Some view' \<Longrightarrow>
   length view' = length view \<and> take offset view' = take offset view"
proof (induction channelData numberOfChannels i offset view rule: writeChannels.induct)
  case (1 channelData numberOfChannels i offset view)
  show ?case
  proof (cases "i < numberOfChannels")
    case False
    with "1.prems" show ?thesis by (subst (asm) writeChannels.simps) simp
  next
    case True
    let ?bytes = "concat (map int16Bytes (map floatTo16 (channelData ! i)))"
    from "1.prems" True have c: "i < length channelData"
      by (subst (asm) writeChannels.simps) (simp split: if_splits)
    from "1.prems" True c obtain v where
      w: "writeBytes view offset ?bytes = Some v"
      and r: "writeChannels channelData numberOfChannels (i + 1) (offset + length ?bytes) v = Some view'"
      by (subst (asm) writeChannels.simps) (simp add: Let_def split: option.splits del: map_map)
    from writeBytes_prefix [OF w] have v: "length v = length view" "take offset v = take offset view"
      by simp_all
    from "1.IH" [OF True c refl refl refl w r]
    have "length view' = length v"
      and "take (offset + length ?bytes) view' = take (offset + length ?bytes) v"
      by simp_all
    then have "take offset (take (offset + length ?bytes) view')
        = take offset (take (offset + length ?bytes) v)"
      by simp
    then have "take offset view' = take offset v" by (simp add: min_def)
    with v \<open>length view' = length v\<close> show ?thesis by simp
  qed
qed

lemma writeWav_header:
  "\<exists>view. writeWav channelData sampleRate numOfChan frames =
             writeChannels channelData numOfChan 0 44 view
         \<and> wavHeaderWrites (replicate (frames * numOfChan * 2 + 44) 0)
              (frames * numOfChan * 2 + 44 - 8) numOfChan sampleRate
              (sampleRate * numOfChan * 2) (numOfChan * 2) 16 (frames * numOfChan * 2 + 44 - 44)
            = Some view"
  by (simp add: writeWav_def wavHeaderWrites_def Let_def setUint32_def setUint16_def setUint8_def)

lemma getUint32_take:
  "off + 4 \<le> n \<Longrightarrow> n \<le> length v \<Longrightarrow> getUint32 (take n v) off = getUint32 v off"
  by (simp add: getUint32_def)

lemma getUint16_take:
  "off + 2 \<le> n \<Longrightarrow> n \<le> length v \<Longrightarrow> getUint16 (take n v) off = getUint16 v off"
  by (simp add: getUint16_def)

lemma writeWav_header_fields:
  assumes "writeWav channelData sampleRate numOfChan frames = Some wav"
  shows "length wav = 44 + frames * numOfChan * 2
       \<and> getUint32 wav 4 = Some ((length wav - 8) mod 4294967296)
       \<and> getUint32 wav 16 = Some 16
       \<and> getUint16 wav 20 = Some 1
       \<and> getUint16 wav 22 = Some (numOfChan mod 65536)
       \<and> getUint32 wav 24 = Some (sampleRate mod 4294967296)
       \<and> getUint32 wav 28 = Some ((sampleRate * numOfChan * 2) mod 4294967296)
       \<and> getUint16 wav 32 = Some ((numOfChan * 2) mod 65536)
       \<and> getUint16 wav 34 = Some 16
       \<and> getUint32 wav 40 = Some ((length wav - 44) mod 4294967296)"
proof -
  let ?len = "frames * numOfChan * 2 + 44"
  obtain view where
    c: "writeWav channelData sampleRate numOfChan frames =
          writeChannels channelData numOfChan 0 44 view"
    and h: "wavHeaderWrites (replicate ?len 0) (?len - 8) numOfChan sampleRate
              (sampleRate * numOfChan * 2) (numOfChan * 2) 16 (?len - 44) = Some view"
    using writeWav_header [of channelData sampleRate numOfChan frames] by blast
  have "44 \<le> length (replicate ?len (0 :: byte))" by simp
  from wavHeaderWrites_fields [OF this, of "?len - 8" numOfChan sampleRate
      "sampleRate * numOfChan * 2" "numOfChan * 2" 16 "?len - 44"]
  have lv: "length view = ?len"
    and f: "getUint32 view 4 = Some ((?len - 8) mod 4294967296)"
      "getUint32 view 16 = Some 16"
      "getUint16 view 20 = Some 1"
      "getUint16 view 22 = Some (numOfChan mod 65536)"
      "getUint32 view 24 = Some (sampleRate mod 4294967296)"
      "getUint32 view 28 = Some ((sampleRate * numOfChan * 2) mod 4294967296)"
      "getUint16 view 32 = Some ((numOfChan * 2) mod 65536)"
      "getUint16 view 34 = Some 16"
      "getUint32 view 40 = Some ((?len - 44) mod 4294967296)"
    unfolding h by simp_all
  from assms c have "writeChannels channelData numOfChan 0 44 view = Some wav" by simp
  from writeChannels_prefix [OF this]
  have lw: "length wav = length view" and t: "take 44 wav = take 44 view" by simp_all
  have g32: "getUint32 wav off = getUint32 view off" if "off + 4 \<le> 44" for off
  proof -
    have "getUint32 (take 44 wav) off = getUint32 wav off"
      using that lw lv by (intro getUint32_take) simp_all
    moreover have "getUint32 (take 44 view) off = getUint32 view off"
      using that lv by (intro getUint32_take) simp_all
    ultimately show ?thesis using t by simp
  qed
  have g16: "getUint16 wav off = getUint16 view off" if "off + 2 \<le> 44" for off
  proof -
    have "getUint16 (take 44 wav) off = getUint16 wav off"
      using that lw lv by (intro getUint16_take) simp_all
    moreover have "getUint16 (take 44 view) off = getUint16 view off"
      using that lv by (intro getUint16_take) simp_all
    ultimately show ?thesis using t by simp
  qed
  have l: "length wav = 44 + frames * numOfChan * 2" using lw lv by simp
  have l8: "length wav - 8 = ?len - 8" and l44: "length wav - 44 = ?len - 44"
    using l by simp_all
  show ?thesis
    unfolding l8 l44 using l f by (simp add: g32 g16)
qed

lemma num_rem_nat:
  "0 < b \<Longrightarrow> num_rem (Fin (of_nat a)) (Fin (of_nat b)) = Fin (of_nat (a mod b))"
  by (simp add: js_mod_of_nat)

lemma natNum_numeral: "Fin (numeral k) = natNum (numeral k)"
  by (simp add: natNum_def)

lemma js_add_natNum: "a + b < 2 ^ 53 \<Longrightarrow> js_add (natNum a) (natNum b) = natNum (a + b)"
  unfolding natNum_def by (rule js_add_nat)

lemma js_sub_natNum:
  "b \<le> a \<Longrightarrow> a < 2 ^ 53 \<Longrightarrow> js_sub (natNum a) (natNum b) = natNum (a - b)"
  unfolding natNum_def by (rule js_sub_nat)

lemma js_mul_natNum: "a * b < 2 ^ 53 \<Longrightarrow> js_mul (natNum a) (natNum b) = natNum (a * b)"
  unfolding natNum_def by (rule js_mul_nat)

lemma js_div_natNum:
  "0 < b \<Longrightarrow> b dvd a \<Longrightarrow> a div b < 2 ^ 53 \<Longrightarrow> js_div (natNum a) (natNum b) = natNum (a div b)"
  unfolding natNum_def by (rule js_div_nat)

lemma num_rem_natNum: "0 < b \<Longrightarrow> num_rem (natNum a) (natNum b) = natNum (a mod b)"
  unfolding natNum_def by (rule num_rem_nat)

lemma toIndex_natNum: "n < 2 ^ 53 \<Longrightarrow> toIndex (natNum n) = Some n"
  unfolding natNum_def by (rule toIndex_nat)

lemma toUint32_natNum: "toUint32 (natNum n) = n mod 4294967296"
  unfolding natNum_def by (rule toUint32_nat)

lemmas natNum_simps = js_add_natNum js_sub_natNum js_mul_natNum js_div_natNum num_rem_natNum
  toIndex_natNum toUint32_natNum

lemma typedArraySet_start:
  "typedArraySet (replicate (length xs + p) z) xs 0 = Some (xs @ replicate p z)"
  by (simp add: typedArraySet_def)

lemma typedArraySet_end:
  "typedArraySet (xs @ replicate p z) (replicate p z) (length xs) = Some (xs @ replicate p z)"
  by (simp add: typedArraySet_def)

lemma typedArraySet_header:
  "length header = 44 \<Longrightarrow>
   typedArraySet (replicate (44 + n) z) header 0 = Some (header @ replicate n z)"
  by (simp add: typedArraySet_def)

lemma typedArraySet_data:
  "length header = 44 \<Longrightarrow> length d = n \<Longrightarrow>
   typedArraySet (header @ replicate n z) d 44 = Some (header @ d)"
  by (simp add: typedArraySet_def)

lemma bufferToWav_16_padding:
  assumes ev: "length chunks mod 2 = 0"
    and sr: "0 < sampleRate" "sampleRate < 2 ^ 53"
    and br: "sampleRate * numChannels * 2 < 2 ^ 53"
    and tot: "44 + length chunks + paddingBytes (length chunks) sampleRate numChannels < 2 ^ 53"
  shows "js_mul (js_mul
            (num_rem (js_sub (natNum sampleRate)
                        (num_rem (js_div (natNum (length chunks)) (js_div (natNum 16) (natNum 8)))
                           (natNum sampleRate)))
               (natNum sampleRate))
            (natNum numChannels))
          (js_div (natNum 16) (natNum 8))
        = natNum (paddingBytes (length chunks) sampleRate numChannels)"
proof -
  define E where "E = length chunks div 2"
  define m where "m = (sampleRate - E mod sampleRate) mod sampleRate"
  have s1: "js_div (natNum 16) (natNum 8) = natNum 2"
    using js_div_natNum [of 8 16] by simp
  have d: "2 dvd length chunks" using ev by presburger
  have "length chunks < 2 ^ 53" using tot by simp
  then have "length chunks div 2 < 2 ^ 53" by simp
  with d have s2: "js_div (natNum (length chunks)) (natNum 2) = natNum E"
    unfolding E_def by (intro js_div_natNum) simp_all
  have s3: "num_rem (natNum E) (natNum sampleRate) = natNum (E mod sampleRate)"
    using sr(1) by (rule num_rem_natNum)
  have "E mod sampleRate \<le> sampleRate" using sr(1) by simp
  then have s4: "js_sub (natNum sampleRate) (natNum (E mod sampleRate))
      = natNum (sampleRate - E mod sampleRate)"
    using sr(2) by (rule js_sub_natNum)
  have s5: "num_rem (natNum (sampleRate - E mod sampleRate)) (natNum sampleRate) = natNum m"
    unfolding m_def using sr(1) by (rule num_rem_natNum)
  have "m \<le> sampleRate" unfolding m_def using sr(1) by simp
  then have "m * numChannels \<le> sampleRate * numChannels" by (rule mult_le_mono1)
  then have mc: "m * numChannels * 2 \<le> sampleRate * numChannels * 2" by simp
  then have "m * numChannels < 2 ^ 53" using br by linarith
  then have s6: "js_mul (natNum m) (natNum numChannels) = natNum (m * numChannels)"
    by (rule js_mul_natNum)
  have "m * numChannels * 2 < 2 ^ 53" using mc br by linarith
  then have s7: "js_mul (natNum (m * numChannels)) (natNum 2) = natNum (m * numChannels * 2)"
    by (rule js_mul_natNum)
  have p: "paddingBytes (length chunks) sampleRate numChannels = m * numChannels * 2"
    by (simp add: paddingBytes_def m_def E_def)
  show ?thesis unfolding s1 s2 s3 s4 s5 s6 s7 p by (rule refl)
qed

lemma bufferToWav_16:
  assumes ev: "length chunks mod 2 = 0"
    and sr: "0 < sampleRate" "sampleRate < 2 ^ 53"
    and br: "sampleRate * numChannels * 2 < 2 ^ 53"
    and tot: "44 + length chunks + paddingBytes (length chunks) sampleRate numChannels < 2 ^ 53"
  shows "\<exists>header.
           wavHeaderWrites (replicate 44 0)
             ((36 + (length chunks + paddingBytes (length chunks) sampleRate numChannels))
                mod 4294967296)
             numChannels sampleRate ((sampleRate * numChannels * 2) mod 4294967296)
             ((numChannels * 2) mod 4294967296) 16
             (length chunks + paddingBytes (length chunks) sampleRate numChannels) = Some header
         \<and> length header = 44
         \<and> bufferToWav chunks sampleRate numChannels 16 =
             Some (header @ chunks
                   @ replicate (paddingBytes (length chunks) sampleRate numChannels) 0)"
proof -
  define p where "p = paddingBytes (length chunks) sampleRate numChannels"
  define D where "D = length chunks + p"
  have c1: "(if length chunks mod 2 \<noteq> 0 then take (length chunks - 1) chunks else chunks) = chunks"
    using ev by simp
  have pad: "js_mul (js_mul
            (num_rem (js_sub (natNum sampleRate)
                        (num_rem (js_div (natNum (length chunks)) (js_div (natNum 16) (natNum 8)))
                           (natNum sampleRate)))
               (natNum sampleRate))
            (natNum numChannels))
          (js_div (natNum 16) (natNum 8)) = natNum p"
    unfolding p_def using assms by (rule bufferToWav_16_padding)
  have s1: "js_div (natNum 16) (natNum 8) = natNum 2"
    using js_div_natNum [of 8 16] by simp
  have pad2: "js_mul (js_mul
            (num_rem (js_sub (natNum sampleRate)
                        (num_rem (js_div (natNum (length chunks)) (natNum 2))
                           (natNum sampleRate)))
               (natNum sampleRate))
            (natNum numChannels))
          (natNum 2) = natNum p"
    using pad unfolding s1 .
  have f1: "p < 2 ^ 53" "length chunks + p < 2 ^ 53" "44 + D < 2 ^ 53"
    using tot unfolding p_def D_def by simp_all
  have "sampleRate * numChannels \<le> sampleRate * numChannels * 2" by simp
  then have f2: "sampleRate * numChannels < 2 ^ 53" using br by linarith
  have "1 * (numChannels * 2) \<le> sampleRate * (numChannels * 2)"
    using sr(1) by (intro mult_le_mono1) simp
  then have "numChannels * 2 \<le> sampleRate * numChannels * 2"
    by (simp only: mult_1 mult.assoc)
  then have f3: "numChannels * 2 < 2 ^ 53" using br by linarith
  have t1: "toIndex (natNum p) = Some p" using f1(1) by (rule toIndex_natNum)
  have t2: "js_add (natNum (length chunks)) (natNum p) = natNum D"
    unfolding D_def using f1(2) by (rule js_add_natNum)
  have t3: "toIndex (natNum D) = Some D" using f1(2) unfolding D_def by (rule toIndex_natNum)
  have t4: "typedArraySet (replicate D 0) chunks 0 = Some (chunks @ replicate p (0 :: byte))"
    unfolding D_def by (rule typedArraySet_start)
  have t5: "typedArraySet (chunks @ replicate p 0) (replicate p 0) (length chunks)
      = Some (chunks @ replicate p (0 :: byte))"
    by (rule typedArraySet_end)
  have t7: "js_add (natNum 44) (natNum D) = natNum (44 + D)"
    using f1(3) by (rule js_add_natNum)
  have t8: "toUint32 (js_sub (natNum (44 + D)) (natNum 8)) = (36 + D) mod 4294967296"
    using js_sub_natNum [of 8 "44 + D"] f1(3) by (simp add: toUint32_natNum)
  have t9: "toUint32 (js_mul (js_mul (natNum sampleRate) (natNum numChannels)) (natNum 2))
      = (sampleRate * numChannels * 2) mod 4294967296"
    using js_mul_natNum [OF f2] js_mul_natNum [of "sampleRate * numChannels" 2] br
    by (simp add: toUint32_natNum)
  have t10: "toUint32 (js_mul (natNum numChannels) (natNum 2)) = (numChannels * 2) mod 4294967296"
    using js_mul_natNum [OF f3] by (simp add: toUint32_natNum)
  have t11: "toIndex (natNum (44 + D)) = Some (44 + D)" using f1(3) by (rule toIndex_natNum)
  have step: "bufferToWav chunks sampleRate numChannels 16 =
      do {
        header \<leftarrow> wavHeaderWrites (replicate 44 0) ((36 + D) mod 4294967296) numChannels
                    sampleRate ((sampleRate * numChannels * 2) mod 4294967296)
                    ((numChannels * 2) mod 4294967296) 16 D;
        wavData \<leftarrow> typedArraySet (replicate (44 + D) 0) header 0;
        typedArraySet wavData (chunks @ replicate p 0) 44
      }"
    unfolding bufferToWav_def Let_def c1 natNum_def [symmetric] natNum_numeral s1 pad2
    by (simp add: t1 t2 t3 t4 t5 t7 t8 t9 t10 t11 wavHeaderWrites_def D_def [symmetric])
  have "44 \<le> length (replicate 44 (0 :: byte))" by simp
  from wavHeaderWrites_fields [OF this]
  obtain header where
    h: "wavHeaderWrites (replicate 44 0) ((36 + D) mod 4294967296) numChannels
          sampleRate ((sampleRate * numChannels * 2) mod 4294967296)
          ((numChannels * 2) mod 4294967296) 16 D = Some header"
    and "length header = length (replicate 44 (0 :: byte))"
    by blast
  then have lh: "length header = 44" by simp
  have "bufferToWav chunks sampleRate numChannels 16 = Some (header @ chunks @ replicate p 0)"
    unfolding step h using lh
    by (simp add: typedArraySet_header typedArraySet_data D_def)
  with h lh show ?thesis unfolding D_def p_def by blast
qed

lemma bufferToWav_16_fields:
  assumes "length chunks mod 2 = 0"
    and "0 < sampleRate" "sampleRate < 2 ^ 53"
    and "sampleRate * numChannels * 2 < 2 ^ 53"
    and "44 + length chunks + paddingBytes (length chunks) sampleRate numChannels < 2 ^ 53"
  shows "\<exists>header.
           bufferToWav chunks sampleRate numChannels 16 =
             Some (header @ chunks
                   @ replicate (paddingBytes (length chunks) sampleRate numChannels) 0)
         \<and> length header = 44
         \<and> map ((!) header) [0, 1, 2, 3] = map of_char ''RIFF''
         \<and> getUint32 header 4 =
             Some ((36 + (length chunks + paddingBytes (length chunks) sampleRate numChannels))
                   mod 4294967296)
         \<and> map ((!) header) [8, 9, 10, 11, 12, 13, 14, 15] = map of_char ''WAVEfmt ''
         \<and> getUint32 header 16 = Some 16
         \<and> getUint16 header 20 = Some 1
         \<and> getUint16 header 22 = Some (numChannels mod 65536)
         \<and> getUint32 header 24 = Some (sampleRate mod 4294967296)
         \<and> getUint32 header 28 = Some ((sampleRate * numChannels * 2) mod 4294967296)
         \<and> getUint16 header 32 = Some ((numChannels * 2) mod 65536)
         \<and> getUint16 header 34 = Some 16
         \<and> map ((!) header) [36, 37, 38, 39] = map of_char ''data''
         \<and> getUint32 header 40 =
             Some ((length chunks + paddingBytes (length chunks) sampleRate numChannels)
                   mod 4294967296)"
proof -
  let ?d = "length chunks + paddingBytes (length chunks) sampleRate numChannels"
  obtain header where
    h: "wavHeaderWrites (replicate 44 0) ((36 + ?d) mod 4294967296) numChannels sampleRate
          ((sampleRate * numChannels * 2) mod 4294967296) ((numChannels * 2) mod 4294967296)
          16 ?d = Some header"
    and l: "length header = 44"
    and w: "bufferToWav chunks sampleRate numChannels 16 =
      Some (header @ chunks @ replicate (paddingBytes (length chunks) sampleRate numChannels) 0)"
    using bufferToWav_16 [OF assms] by blast
  have m: "(numChannels * 2) mod 4294967296 mod 65536 = (numChannels * 2) mod 65536"
    by (rule mod_mod_cancel) simp
  have "44 \<le> length (replicate 44 (0 :: byte))" by simp
  from wavHeaderWrites_fields [OF this, of "(36 + ?d) mod 4294967296" numChannels sampleRate
      "(sampleRate * numChannels * 2) mod 4294967296" "(numChannels * 2) mod 4294967296" 16 ?d]
  have f: "map ((!) header) [0, 1, 2, 3] = map of_char ''RIFF''"
      "getUint32 header 4 = Some ((36 + ?d) mod 4294967296)"
      "map ((!) header) [8, 9, 10, 11, 12, 13, 14, 15] = map of_char ''WAVEfmt ''"
      "getUint32 header 16 = Some 16"
      "getUint16 header 20 = Some 1"
      "getUint16 header 22 = Some (numChannels mod 65536)"
      "getUint32 header 24 = Some (sampleRate mod 4294967296)"
      "getUint32 header 28 = Some ((sampleRate * numChannels * 2) mod 4294967296)"
      "getUint16 header 32 = Some ((numChannels * 2) mod 65536)"
      "getUint16 header 34 = Some 16"
      "map ((!) header) [36, 37, 38, 39] = map of_char ''data''"
      "getUint32 header 40 = Some (?d mod 4294967296)"
    unfolding h by (simp_all add: m)
  from w l f show ?thesis by (intro exI [of _ header] conjI)
qed

text \<open>
  In the evaluation of a sequence of steps the next step is simplified only once the
  current one has returned.
\<close>

lemma bind_weak_cong: "m = m' \<Longrightarrow> Option.bind m f = Option.bind m' f"
  by simp

lemmas bufferToWav_eval = typedArraySet_def js_trunc_def js_mod_def
  setUint32_def setUint16_def setUint8_def js_eval


text \<open>
  Claim C2, as amended. For every PCM input of even length, every positive sample rate and
  every channel count, with 16 bits per sample, such that the sample rate, the byte rate
  \<open>rate * channels * 2\<close> and the size of the file are below \<open>2^53\<close> (so that binary64
  holds every value of the computation exactly and every typed array can be created),
  \<open>bufferToWav\<close> returns a file of exactly \<open>44 + paddedDataLength\<close> bytes (the input
  followed by the padding the encoder computes) whose header holds, read back
  little-endian: \<open>RIFF\<close>, ChunkSize = total length - 8, \<open>WAVEfmt \<close>, Subchunk1Size = 16,
  AudioFormat = 1, NumChannels = the channel count, SampleRate = the sample rate,
  ByteRate = rate * channels * 2, BlockAlign = channels * 2, BitsPerSample = 16, \<open>data\<close>,
  Subchunk2Size = the padded data length, each numeric field reduced modulo the width of
  the field (\<open>2^32\<close>, or \<open>2^16\<close> for NumChannels, BlockAlign and BitsPerSample). So
  reading the header back recovers the sample rate when it is below \<open>2^32\<close>, the channel
  count when it is below \<open>2^16\<close>, and the 16 bits per sample.
  (\<open>writeWav_header_fields\<close> above is the statement for the float encoder.)
\<close>

theorem wav_header_fields:
  assumes "length chunks mod 2 = 0" and "0 < sampleRate" and "sampleRate < 2 ^ 53"
    and "sampleRate * numChannels * 2 < 2 ^ 53"
    and "44 + length chunks
           + ((sampleRate - (length chunks div 2) mod sampleRate) mod sampleRate)
               * numChannels * 2 < 2 ^ 53"
  shows "\<exists>wav. bufferToWav chunks sampleRate numChannels 16 = Some wav
       \<and> length wav = 44 + (length chunks
            + ((sampleRate - (length chunks div 2) mod sampleRate) mod sampleRate) * numChannels * 2)
       \<and> map ((!) wav) [0, 1, 2, 3] = map of_char ''RIFF''
       \<and> getUint32 wav 4 = Some ((length wav - 8) mod 4294967296)
       \<and> map ((!) wav) [8, 9, 10, 11, 12, 13, 14, 15] = map of_char ''WAVEfmt ''
       \<and> getUint32 wav 16 = Some 16
       \<and> getUint16 wav 20 = Some 1
       \<and> getUint16 wav 22 = Some (numChannels mod 65536)
       \<and> getUint32 wav 24 = Some (sampleRate mod 4294967296)
       \<and> getUint32 wav 28 = Some ((sampleRate * numChannels * 2) mod 4294967296)
       \<and> getUint16 wav 32 = Some ((numChannels * 2) mod 65536)
       \<and> getUint16 wav 34 = Some 16
       \<and> map ((!) wav) [36, 37, 38, 39] = map of_char ''data''
       \<and> getUint32 wav 40 = Some ((length wav - 44) mod 4294967296)
       \<and> (sampleRate < 4294967296 \<longrightarrow> getUint32 wav 24 = Some sampleRate)
       \<and> (numChannels < 65536 \<longrightarrow> getUint16 wav 22 = Some numChannels)"
proof -
  let ?p = "paddingBytes (length chunks) sampleRate numChannels"
  let ?data = "chunks @ replicate ?p 0"
  have tot: "44 + length chunks + ?p < 2 ^ 53"
    using assms(5) by (simp add: paddingBytes_def)
  obtain header where
    w: "bufferToWav chunks sampleRate numChannels 16 = Some (header @ ?data)"
    and l: "length header = 44"
    and f: "map ((!) header) [0, 1, 2, 3] = map of_char ''RIFF''"
      "getUint32 header 4 = Some ((36 + (length chunks + ?p)) mod 4294967296)"
      "map ((!) header) [8, 9, 10, 11, 12, 13, 14, 15] = map of_char ''WAVEfmt ''"
      "getUint32 header 16 = Some 16"
      "getUint16 header 20 = Some 1"
      "getUint16 header 22 = Some (numChannels mod 65536)"
      "getUint32 header 24 = Some (sampleRate mod 4294967296)"
      "getUint32 header 28 = Some ((sampleRate * numChannels * 2) mod 4294967296)"
      "getUint16 header 32 = Some ((numChannels * 2) mod 65536)"
      "getUint16 header 34 = Some 16"
      "map ((!) header) [36, 37, 38, 39] = map of_char ''data''"
      "getUint32 header 40 = Some ((length chunks + ?p) mod 4294967296)"
    using bufferToWav_16_fields [OF assms(1-4) tot] by blast
  let ?wav = "header @ ?data"
  have len: "length ?wav = 44 + (length chunks
            + ((sampleRate - (length chunks div 2) mod sampleRate) mod sampleRate) * numChannels * 2)"
    using l by (simp add: paddingBytes_def)
  have len8: "length ?wav - 8 = 36 + (length chunks + ?p)"
    and len44: "length ?wav - 44 = length chunks + ?p"
    using l by simp_all
  have g32: "getUint32 ?wav off = getUint32 header off" if "off + 4 \<le> 44" for off
    using that l by (intro getUint32_append) simp
  have g16: "getUint16 ?wav off = getUint16 header off" if "off + 2 \<le> 44" for off
    using that l by (intro getUint16_append) simp
  have n: "?wav ! i = header ! i" if "i < 44" for i
    using that l by (simp add: nth_append)
  have tags: "map ((!) ?wav) [0, 1, 2, 3] = map of_char ''RIFF''"
    "map ((!) ?wav) [8, 9, 10, 11, 12, 13, 14, 15] = map of_char ''WAVEfmt ''"
    "map ((!) ?wav) [36, 37, 38, 39] = map of_char ''data''"
    using f(1,3,11) by (simp_all add: n)
  have nums: "getUint32 ?wav 4 = Some ((length ?wav - 8) mod 4294967296)"
    "getUint32 ?wav 16 = Some 16"
    "getUint16 ?wav 20 = Some 1"
    "getUint16 ?wav 22 = Some (numChannels mod 65536)"
    "getUint32 ?wav 24 = Some (sampleRate mod 4294967296)"
    "getUint32 ?wav 28 = Some ((sampleRate * numChannels * 2) mod 4294967296)"
    "getUint16 ?wav 32 = Some ((numChannels * 2) mod 65536)"
    "getUint16 ?wav 34 = Some 16"
    "getUint32 ?wav 40 = Some ((length ?wav - 44) mod 4294967296)"
    unfolding len8 len44 using f by (simp_all add: g32 g16)
  have small: "sampleRate < 4294967296 \<longrightarrow> getUint32 ?wav 24 = Some sampleRate"
    "numChannels < 65536 \<longrightarrow> getUint16 ?wav 22 = Some numChannels"
    using nums(4,5) by simp_all
  from w len tags nums small show ?thesis by blast
qed

theorem wav_header_fields_witness:
  "length [1, 2, 3, 4 :: byte] mod 2 = 0 \<and> (0::nat) < 24000 \<and> (24000::nat) < 2 ^ 53
   \<and> (24000::nat) * 1 * 2 < 2 ^ 53
   \<and> 44 + length [1, 2, 3, 4 :: byte]
         + ((24000 - (length [1, 2, 3, 4 :: byte] div 2) mod 24000) mod 24000) * 1 * 2 < 2 ^ 53
   \<and> (\<exists>wav. bufferToWav [1, 2, 3, 4] 24000 1 16 = Some wav
         \<and> length wav = 48044
         \<and> getUint32 wav 4 = Some 48036
         \<and> getUint16 wav 22 = Some 1
         \<and> getUint32 wav 24 = Some 24000
         \<and> getUint32 wav 28 = Some 48000
         \<and> getUint16 wav 32 = Some 2
         \<and> getUint16 wav 34 = Some 16
         \<and> getUint32 wav 40 = Some 48000)"
proof -
  have e: "length [1, 2, 3, 4 :: byte] mod 2 = 0" and r: "(0::nat) < 24000"
    and r53: "(24000::nat) < 2 ^ 53" and b53: "(24000::nat) * 1 * 2 < 2 ^ 53"
    and t53: "44 + length [1, 2, 3, 4 :: byte]
         + ((24000 - (length [1, 2, 3, 4 :: byte] div 2) mod 24000) mod 24000) * 1 * 2 < 2 ^ 53"
    by simp_all
  from wav_header_fields [OF e r r53 b53 t53] obtain wav where
    "bufferToWav [1, 2, 3, 4] 24000 1 16 = Some wav"
    "length wav = 44 + (length [1, 2, 3, 4 :: byte]
            + ((24000 - (length [1, 2, 3, 4 :: byte] div 2) mod 24000) mod 24000) * 1 * 2)"
    "getUint32 wav 4 = Some ((length wav - 8) mod 4294967296)"
    "getUint16 wav 22 = Some (1 mod 65536)"
    "getUint32 wav 24 = Some (24000 mod 4294967296)"
    "getUint32 wav 28 = Some ((24000 * 1 * 2) mod 4294967296)"
    "getUint16 wav 32 = Some ((1 * 2) mod 65536)"
    "getUint16 wav 34 = Some 16"
    "getUint32 wav 40 = Some ((length wav - 44) mod 4294967296)"
    by blast
  then have "bufferToWav [1, 2, 3, 4] 24000 1 16 = Some wav
         \<and> length wav = 48044
         \<and> getUint32 wav 4 = Some 48036
         \<and> getUint16 wav 22 = Some 1
         \<and> getUint32 wav 24 = Some 24000
         \<and> getUint32 wav 28 = Some 48000
         \<and> getUint16 wav 32 = Some 2
         \<and> getUint16 wav 34 = Some 16
         \<and> getUint32 wav 40 = Some 48000"
    by simp
  with e r r53 b53 t53 show ?thesis by blast
qed

text \<open>
  The claim as written, for every sample rate and channel count, fails where a value does
  not fit its field, at the sample rate 0, and where a product is rounded. With 65536
  channels (and no data, so that nothing is padded) the NumChannels field at offset 22
  reads 0. With a sample rate of 0 and a non-empty input the encoder throws instead of
  returning a file. With a sample rate of \<open>2^52 + 1\<close> and 3 channels the product
  \<open>sampleRate * numChannels\<close> is rounded to \<open>3 * 2^52 + 4\<close>, and the ByteRate field at
  offset 28 reads 8, where \<open>sampleRate * numChannels * 2\<close> is 6 modulo \<open>2^32\<close>.
\<close>

theorem wav_header_fields_counterexample:
  "bufferToWav [] 24000 65536 16 =
     Some [82, 73, 70, 70, 36, 0, 0, 0, 87, 65, 86, 69, 102, 109, 116, 32, 16, 0, 0, 0,
           1, 0, 0, 0, 192, 93, 0, 0, 0, 0, 128, 187, 0, 0, 16, 0, 100, 97, 116, 97,
           0, 0, 0, 0]
   \<and> getUint16 [82, 73, 70, 70, 36, 0, 0, 0, 87, 65, 86, 69, 102, 109, 116, 32, 16, 0, 0, 0,
           1, 0, 0, 0, 192, 93, 0, 0, 0, 0, 128, 187, 0, 0, 16, 0, 100, 97, 116, 97,
           0, 0, 0, 0] 22 = Some 0
   \<and> bufferToWav [0, 0] 0 1 16 = None
   \<and> bufferToWav [] 4503599627370497 3 16 =
     Some [82, 73, 70, 70, 36, 0, 0, 0, 87, 65, 86, 69, 102, 109, 116, 32, 16, 0, 0, 0,
           1, 0, 3, 0, 1, 0, 0, 0, 8, 0, 0, 0, 6, 0, 16, 0, 100, 97, 116, 97,
           0, 0, 0, 0]
   \<and> getUint32 [82, 73, 70, 70, 36, 0, 0, 0, 87, 65, 86, 69, 102, 109, 116, 32, 16, 0, 0, 0,
           1, 0, 3, 0, 1, 0, 0, 0, 8, 0, 0, 0, 6, 0, 16, 0, 100, 97, 116, 97,
           0, 0, 0, 0] 28 = Some 8
   \<and> (4503599627370497 * 3 * 2) mod 4294967296 = (6 :: nat)"
proof -
  have a: "bufferToWav [] 24000 65536 16 =
     Some [82, 73, 70, 70, 36, 0, 0, 0, 87, 65, 86, 69, 102, 109, 116, 32, 16, 0, 0, 0,
           1, 0, 0, 0, 192, 93, 0, 0, 0, 0, 128, 187, 0, 0, 16, 0, 100, 97, 116, 97,
           0, 0, 0, 0]"
    unfolding bufferToWav_def Let_def replicate_44
    by (simp add: bufferToWav_eval cong: bind_weak_cong)
  have b: "getUint16 [82, 73, 70, 70, 36, 0, 0, 0, 87, 65, 86, 69, 102, 109, 116, 32, 16, 0, 0, 0,
           1, 0, 0, 0, 192, 93, 0, 0, 0, 0, 128, 187, 0, 0, 16, 0, 100, 97, 116, 97,
           0, 0, 0, 0] 22 = Some 0"
    by (simp add: getUint16_def)
  have c: "bufferToWav [0, 0] 0 1 16 = None"
    unfolding bufferToWav_def Let_def
    by (simp add: bufferToWav_eval cong: bind_weak_cong)
  have d: "bufferToWav [] 4503599627370497 3 16 =
     Some [82, 73, 70, 70, 36, 0, 0, 0, 87, 65, 86, 69, 102, 109, 116, 32, 16, 0, 0, 0,
           1, 0, 3, 0, 1, 0, 0, 0, 8, 0, 0, 0, 6, 0, 16, 0, 100, 97, 116, 97,
           0, 0, 0, 0]"
    unfolding bufferToWav_def Let_def replicate_44
    by (simp add: bufferToWav_eval cong: bind_weak_cong)
  have e: "getUint32 [82, 73, 70, 70, 36, 0, 0, 0, 87, 65, 86, 69, 102, 109, 116, 32, 16, 0, 0, 0,
           1, 0, 3, 0, 1, 0, 0, 0, 8, 0, 0, 0, 6, 0, 16, 0, 100, 97, 116, 97,
           0, 0, 0, 0] 28 = Some 8"
    by (simp add: getUint32_def)
  have f: "(4503599627370497 * 3 * 2) mod 4294967296 = (6 :: nat)" by simp
  from a b c d e f show ?thesis by simp
qed

lemma bufferToWav_16_data:
  assumes "length chunks mod 2 = 0"
    and "0 < sampleRate" "sampleRate < 2 ^ 53"
    and "sampleRate * numChannels * 2 < 2 ^ 53"
    and "44 + length chunks + paddingBytes (length chunks) sampleRate numChannels < 2 ^ 53"
  shows "\<exists>wav. bufferToWav chunks sampleRate numChannels 16 = Some wav
       \<and> drop 44 wav = chunks @ replicate (paddingBytes (length chunks) sampleRate numChannels) 0"
proof -
  obtain header where
    "bufferToWav chunks sampleRate numChannels 16 =
       Some (header @ chunks @ replicate (paddingBytes (length chunks) sampleRate numChannels) 0)"
    and "length header = 44"
    using bufferToWav_16_fields [OF assms] by blast
  then show ?thesis by simp
qed

lemma missing_samples_whole:
  assumes "0 < (r::nat)"
  shows "r dvd k + (r - k mod r) mod r \<and> (r - k mod r) mod r < r"
proof (cases "k mod r = 0")
  case True
  then show ?thesis using assms by (simp add: mod_eq_0_iff_dvd)
next
  case False
  then have lt: "r - k mod r < r" using assms by simp
  then have m: "(r - k mod r) mod r = r - k mod r" by simp
  have "k mod r < r" using assms by simp
  then have "k + (r - k mod r) = (k div r) * r + r"
    using div_mult_mod_eq [of k r] by linarith
  then have d: "r dvd k + (r - k mod r)" by simp
  show ?thesis unfolding m using d lt by blast
qed

text \<open>
  For one channel the payload does end on a whole second: it is the smallest multiple of
  \<open>sampleRate * 2\<close> bytes that holds the input.
\<close>

lemma padding_mono_whole_second:
  assumes "length chunks mod 2 = 0" "0 < sampleRate"
    and "44 + length chunks + sampleRate * 2 < 2 ^ 53"
  shows "\<exists>wav. bufferToWav chunks sampleRate 1 16 = Some wav
       \<and> take (length chunks) (drop 44 wav) = chunks
       \<and> sampleRate * 2 dvd length (drop 44 wav)
       \<and> length chunks \<le> length (drop 44 wav)
       \<and> length (drop 44 wav) < length chunks + sampleRate * 2"
proof -
  define k where "k = length chunks div 2"
  define m where "m = (sampleRate - k mod sampleRate) mod sampleRate"
  have p: "paddingBytes (length chunks) sampleRate 1 = m * 2"
    by (simp add: paddingBytes_def m_def k_def)
  have "sampleRate dvd k + m" and lt: "m < sampleRate"
    using missing_samples_whole [OF assms(2), of k] by (simp_all add: m_def)
  have b1: "sampleRate < 2 ^ 53" and b2: "sampleRate * 1 * 2 < 2 ^ 53"
    using assms(3) by simp_all
  have b3: "44 + length chunks + paddingBytes (length chunks) sampleRate 1 < 2 ^ 53"
    unfolding p using lt assms(3) by simp
  obtain wav where w: "bufferToWav chunks sampleRate 1 16 = Some wav"
    and d: "drop 44 wav = chunks @ replicate (paddingBytes (length chunks) sampleRate 1) 0"
    using bufferToWav_16_data [OF assms(1,2) b1 b2 b3] by blast
  have kk: "length chunks = 2 * k" unfolding k_def using assms(1) by presburger
  have l: "length (drop 44 wav) = 2 * (k + m)"
    unfolding d p using kk by simp
  have "sampleRate * 2 dvd (k + m) * 2"
    using \<open>sampleRate dvd k + m\<close> by (intro mult_dvd_mono) simp_all
  then have a: "sampleRate * 2 dvd length (drop 44 wav)"
    unfolding l by (simp only: mult.commute [of 2])
  have b: "take (length chunks) (drop 44 wav) = chunks"
    unfolding d by simp
  have c: "length chunks \<le> length (drop 44 wav)"
    unfolding l by (simp add: kk)
  have e: "length (drop 44 wav) < length chunks + sampleRate * 2"
    unfolding l using lt by (simp add: kk)
  from w a b c e show ?thesis by (intro exI [of _ wav] conjI)
qed

text \<open>
  Claim C4 at two channels. For four bytes (one stereo frame) at 24000 Hz the encoder
  appends 95992 zero bytes: the payload of 95996 bytes keeps the input as its prefix but is
  not a whole number of seconds, which are 96000 bytes each. The encoder counts the
  samples of all channels together when it aligns to the sample rate and then multiplies
  the padding by the channel count. For one channel the payload does end on a whole second
  (\<open>padding_mono_whole_second\<close>).
\<close>

theorem padding_stereo_not_whole_second:
  "bufferToWav [0, 0, 0, 0] 24000 2 16 =
     Some ([82, 73, 70, 70, 32, 119, 1, 0, 87, 65, 86, 69, 102, 109, 116, 32, 16, 0, 0, 0,
            1, 0, 2, 0, 192, 93, 0, 0, 0, 119, 1, 0, 4, 0, 16, 0, 100, 97, 116, 97,
            252, 118, 1, 0]
           @ [0, 0, 0, 0] @ replicate 95992 0)
   \<and> length ([0, 0, 0, 0] @ replicate 95992 (0 :: byte)) = 95996
   \<and> \<not> (24000 * 2 * 2 :: nat) dvd 95996"
proof -
  have e: "length [0, 0, 0, 0 :: byte] mod 2 = 0" and r: "(0::nat) < 24000"
    and r53: "(24000::nat) < 2 ^ 53" and b53: "(24000::nat) * 2 * 2 < 2 ^ 53"
    by simp_all
  have p: "paddingBytes (length [0, 0, 0, 0 :: byte]) 24000 2 = 95992"
    by (simp add: paddingBytes_def)
  have t53: "44 + length [0, 0, 0, 0 :: byte]
      + paddingBytes (length [0, 0, 0, 0 :: byte]) 24000 2 < 2 ^ 53"
    unfolding p by simp
  have h: "wavHeaderWrites (replicate 44 0) 96032 2 24000 96000 4 16 95996 =
     Some [82, 73, 70, 70, 32, 119, 1, 0, 87, 65, 86, 69, 102, 109, 116, 32, 16, 0, 0, 0,
            1, 0, 2, 0, 192, 93, 0, 0, 0, 119, 1, 0, 4, 0, 16, 0, 100, 97, 116, 97,
            252, 118, 1, 0]"
    unfolding replicate_44
    by (simp add: wavHeaderWrites_def setUint32_def setUint16_def setUint8_def)
  from bufferToWav_16 [OF e r r53 b53 t53] obtain header where
    h': "wavHeaderWrites (replicate 44 0)
           ((36 + (length [0, 0, 0, 0 :: byte]
               + paddingBytes (length [0, 0, 0, 0 :: byte]) 24000 2)) mod 4294967296)
           2 24000 ((24000 * 2 * 2) mod 4294967296) ((2 * 2) mod 4294967296) 16
           (length [0, 0, 0, 0 :: byte] + paddingBytes (length [0, 0, 0, 0 :: byte]) 24000 2)
         = Some header"
    and w: "bufferToWav [0, 0, 0, 0] 24000 2 16 =
         Some (header @ [0, 0, 0, 0]
               @ replicate (paddingBytes (length [0, 0, 0, 0 :: byte]) 24000 2) 0)"
    by blast
  from h' have "wavHeaderWrites (replicate 44 0) 96032 2 24000 96000 4 16 95996 = Some header"
    unfolding p by simp
  with h have "header =
      [82, 73, 70, 70, 32, 119, 1, 0, 87, 65, 86, 69, 102, 109, 116, 32, 16, 0, 0, 0,
       1, 0, 2, 0, 192, 93, 0, 0, 0, 119, 1, 0, 4, 0, 16, 0, 100, 97, 116, 97,
       252, 118, 1, 0]"
    by simp
  with w have a: "bufferToWav [0, 0, 0, 0] 24000 2 16 =
     Some ([82, 73, 70, 70, 32, 119, 1, 0, 87, 65, 86, 69, 102, 109, 116, 32, 16, 0, 0, 0,
            1, 0, 2, 0, 192, 93, 0, 0, 0, 119, 1, 0, 4, 0, 16, 0, 100, 97, 116, 97,
            252, 118, 1, 0]
           @ [0, 0, 0, 0] @ replicate 95992 0)"
    unfolding p by simp
  have b: "length ([0, 0, 0, 0] @ replicate 95992 (0 :: byte)) = 95996" by simp
  have c: "\<not> (24000 * 2 * 2 :: nat) dvd 95996" by simp
  from a b c show ?thesis by blast
qed

text \<open>
  Whatever the parameters, a file that the encoder returns holds the input (without the
  byte trimmed from an odd length) right after the 44 bytes of the header: nothing of the
  input is dropped or changed.
\<close>

lemma typedArraySet_Some:
  assumes "typedArraySet target source offset = Some r"
  shows "length r = length target" and "offset + length source \<le> length target"
    and "take offset r = take offset target"
    and "take (length source) (drop offset r) = source"
proof -
  from assms have le: "offset + length source \<le> length target"
    and r: "r = take offset target @ source @ drop (offset + length source) target"
    by (simp_all add: typedArraySet_def split: if_splits)
  show "offset + length source \<le> length target" by (rule le)
  have lt: "length (take offset target) = offset" using le by simp
  show "length r = length target" unfolding r using le by simp
  show "take offset r = take offset target" unfolding r using lt by simp
  show "take (length source) (drop offset r) = source" unfolding r using lt by simp
qed

lemma bufferToWav_prefix:
  assumes "bufferToWav chunks sampleRate numChannels bitsPerSample = Some wav"
  shows "take (length (if length chunks mod 2 \<noteq> 0 then take (length chunks - 1) chunks else chunks))
              (drop 44 wav)
         = (if length chunks mod 2 \<noteq> 0 then take (length chunks - 1) chunks else chunks)"
proof -
  define cc where "cc = (if length chunks mod 2 \<noteq> 0 then take (length chunks - 1) chunks else chunks)"
  from assms obtain pd pd2 wd :: "byte list" and paddedLength paddingLength :: nat where
    a: "typedArraySet (replicate paddedLength 0) cc 0 = Some pd"
    and b: "typedArraySet pd (replicate paddingLength 0) (length cc) = Some pd2"
    and c: "typedArraySet wd pd2 44 = Some wav"
    unfolding bufferToWav_def Let_def cc_def [symmetric]
    by (auto simp: bind_eq_Some_conv simp del: writeString.simps)
  from typedArraySet_Some(4) [OF a] have p1: "take (length cc) pd = cc" by simp
  from typedArraySet_Some(1,2,3) [OF b] have p2: "take (length cc) pd2 = take (length cc) pd"
    and l2: "length cc \<le> length pd2" by simp_all
  from typedArraySet_Some(4) [OF c] have p3: "take (length pd2) (drop 44 wav) = pd2" .
  have "take (length cc) (drop 44 wav) = take (length cc) (take (length pd2) (drop 44 wav))"
    using l2 by (simp add: min_def)
  also have "\<dots> = cc" unfolding p3 p2 p1 by (rule refl)
  finally show ?thesis unfolding cc_def .
qed

text \<open>
  The typed array constructor refuses a length above \<open>2^53 - 1\<close>: with a sample rate of
  \<open>2^53\<close> the padding of a single sample is \<open>2^54 - 2\<close> bytes, and the encoder throws a
  RangeError where it allocates it.
\<close>

lemma bufferToWav_allocation_throws:
  "bufferToWav [0, 0, 0] 9007199254740992 1 16 = None"
  unfolding bufferToWav_def Let_def
  by (simp add: bufferToWav_eval cong: bind_weak_cong)

text \<open>
  Claim C9. For a PCM input of odd length the encoder returns what it returns for the
  input without its last byte, whatever the other parameters, and a file that it returns
  holds the input without its last byte right after the header. With 16 bits per sample
  and a positive sample rate, where the sample rate, the byte rate and the size of the file
  are below \<open>2^53\<close> (so that every typed array can be created, see
  \<open>bufferToWav_allocation_throws\<close>), it does return a file, so nothing is thrown.
\<close>

theorem odd_length_trims_last_byte:
  assumes "length chunks mod 2 \<noteq> 0"
  shows "bufferToWav chunks sampleRate numChannels bitsPerSample =
           bufferToWav (take (length chunks - 1) chunks) sampleRate numChannels bitsPerSample
       \<and> take (length chunks - 1) chunks = butlast chunks
       \<and> (\<forall>wav. bufferToWav chunks sampleRate numChannels bitsPerSample = Some wav \<longrightarrow>
            take (length chunks - 1) (drop 44 wav) = butlast chunks)
       \<and> (0 < sampleRate \<and> sampleRate < 2 ^ 53 \<and> sampleRate * numChannels * 2 < 2 ^ 53
          \<and> 44 + (length chunks - 1)
               + paddingBytes (length chunks - 1) sampleRate numChannels < 2 ^ 53 \<longrightarrow>
            (\<exists>wav. bufferToWav chunks sampleRate numChannels 16 = Some wav
               \<and> take (length chunks - 1) (drop 44 wav) = butlast chunks))"
proof -
  let ?t = "take (length chunks - 1) chunks"
  have lt: "length ?t = length chunks - 1" by simp
  have ev: "length ?t mod 2 = 0" using assms unfolding lt by presburger
  have c1: "(if length chunks mod 2 \<noteq> 0 then ?t else chunks) = ?t"
    using assms by simp
  have c2: "(if length ?t mod 2 \<noteq> 0 then take (length ?t - 1) ?t else ?t) = ?t"
    using ev by simp
  have same: "bufferToWav chunks sampleRate numChannels bitsPerSample =
      bufferToWav ?t sampleRate numChannels bitsPerSample" for bitsPerSample
    unfolding bufferToWav_def c1 c2 by (rule refl)
  have bl: "?t = butlast chunks" by (simp add: butlast_conv_take)
  have pre: "take (length chunks - 1) (drop 44 wav) = butlast chunks"
    if "bufferToWav chunks sampleRate numChannels bitsPerSample = Some wav" for wav
    using bufferToWav_prefix [OF that] assms bl by simp
  have ok: "\<exists>wav. bufferToWav chunks sampleRate numChannels 16 = Some wav
               \<and> take (length chunks - 1) (drop 44 wav) = butlast chunks"
    if pos: "0 < sampleRate" and r53: "sampleRate < 2 ^ 53"
      and b53: "sampleRate * numChannels * 2 < 2 ^ 53"
      and t53: "44 + (length chunks - 1)
               + paddingBytes (length chunks - 1) sampleRate numChannels < 2 ^ 53"
  proof -
    have t53': "44 + length ?t + paddingBytes (length ?t) sampleRate numChannels < 2 ^ 53"
      unfolding lt using t53 .
    obtain wav where "bufferToWav ?t sampleRate numChannels 16 = Some wav"
      and "drop 44 wav = ?t @ replicate (paddingBytes (length ?t) sampleRate numChannels) 0"
      using bufferToWav_16_data [OF ev pos r53 b53 t53'] by blast
    then show ?thesis using same [of 16] bl by simp
  qed
  from same bl pre ok show ?thesis by blast
qed

theorem odd_length_trims_last_byte_witness:
  "length [1, 2, 3 :: byte] mod 2 \<noteq> 0 \<and> (0::nat) < 24000 \<and> (24000::nat) < 2 ^ 53
   \<and> (24000::nat) * 1 * 2 < 2 ^ 53
   \<and> 44 + (length [1, 2, 3 :: byte] - 1)
        + paddingBytes (length [1, 2, 3 :: byte] - 1) 24000 1 < 2 ^ 53
   \<and> bufferToWav [1, 2, 3] 24000 1 16 = bufferToWav [1, 2] 24000 1 16
   \<and> (\<exists>wav. bufferToWav [1, 2, 3] 24000 1 16 = Some wav \<and> take 2 (drop 44 wav) = [1, 2])"
proof -
  have o: "length [1, 2, 3 :: byte] mod 2 \<noteq> 0" and r: "(0::nat) < 24000"
    and r53: "(24000::nat) < 2 ^ 53" and b53: "(24000::nat) * 1 * 2 < 2 ^ 53"
    and t53: "44 + (length [1, 2, 3 :: byte] - 1)
        + paddingBytes (length [1, 2, 3 :: byte] - 1) 24000 1 < 2 ^ 53"
    by (simp_all add: paddingBytes_def)
  have t: "take 2 [1, 2, 3 :: byte] = [1, 2]" by simp
  have b: "butlast [1, 2, 3 :: byte] = [1, 2]" by simp
  have n: "length [1, 2, 3 :: byte] - 1 = 2" by simp
  from odd_length_trims_last_byte [OF o, of 24000 1 16] r r53 b53 t53
  have "bufferToWav [1, 2, 3] 24000 1 16
          = bufferToWav (take (length [1, 2, 3 :: byte] - 1) [1, 2, 3]) 24000 1 16"
    and "\<exists>wav. bufferToWav [1, 2, 3] 24000 1 16 = Some wav
          \<and> take (length [1, 2, 3 :: byte] - 1) (drop 44 wav) = butlast [1, 2, 3]"
    by blast+
  then have "bufferToWav [1, 2, 3] 24000 1 16 = bufferToWav [1, 2] 24000 1 16"
    and "\<exists>wav. bufferToWav [1, 2, 3] 24000 1 16 = Some wav \<and> take 2 (drop 44 wav) = [1, 2]"
    unfolding n t b by simp_all
  with o r r53 b53 t53 show ?thesis by blast
qed

end
